theory Spec2Isabelle
  imports Main "HOL-Library.Word"
begin

section \<open>JavaScript strings\<close>

text \<open>
  A JavaScript string is a sequence of UTF-16 code units. Literals of the source are
  written \<open>js ''...''\<close>; every character of such a literal is ASCII.
\<close>

type_synonym code_unit = "16 word"
type_synonym jsstring = "code_unit list"

definition chr16 :: "char \<Rightarrow> code_unit" where
  "chr16 c = of_char c"

definition js :: "string \<Rightarrow> jsstring" where
  "js s = map chr16 s"

text \<open>\<^verbatim>\<open>s.split(sep)\<close> for a one-character separator.\<close>

fun js_split :: "'a \<Rightarrow> 'a list \<Rightarrow> 'a list list" where
  "js_split sep [] = [[]]"
| "js_split sep (c # cs) =
     (if c = sep then [] # js_split sep cs
      else (case js_split sep cs of [] \<Rightarrow> [[c]] | p # ps \<Rightarrow> (c # p) # ps))"

text \<open>\<^verbatim>\<open>xs.join(sep)\<close> on an array of strings.\<close>

fun js_join :: "'a list \<Rightarrow> 'a list list \<Rightarrow> 'a list" where
  "js_join sep [] = []"
| "js_join sep [x] = x"
| "js_join sep (x # y # ys) = x @ sep @ js_join sep (y # ys)"

definition startsWith :: "jsstring \<Rightarrow> code_unit \<Rightarrow> bool" where
  "startsWith s c = (case s of [] \<Rightarrow> False | x # _ \<Rightarrow> x = c)"

definition endsWith :: "jsstring \<Rightarrow> code_unit \<Rightarrow> bool" where
  "endsWith s c = (case rev s of [] \<Rightarrow> False | x # _ \<Rightarrow> x = c)"

text \<open>\<^verbatim>\<open>s.indexOf(c)\<close>: the first position of \<open>c\<close>, or \<open>-1\<close>.\<close>

fun indexOf :: "jsstring \<Rightarrow> code_unit \<Rightarrow> int" where
  "indexOf [] c = -1"
| "indexOf (x # xs) c =
     (if x = c then 0 else (let i = indexOf xs c in if i = -1 then -1 else i + 1))"

subsection \<open>String conversion of parameter values\<close>

text \<open>
  \<^verbatim>\<open>RouteParams = { [key: string]: string | number }\<close>. The bag is given by what
  the property read \<^verbatim>\<open>routeParams[paramName]\<close> returns for each name: a string, a
  number, \<^verbatim>\<open>undefined\<close> where the read finds no property, or \<^verbatim>\<open>null\<close>, for which
  the code tests as well. A parameter has no value when the read gives \<^verbatim>\<open>undefined\<close>
  or \<^verbatim>\<open>null\<close>. Numbers are the integers whose \<^verbatim>\<open>String\<close> form is their decimal
  numeral.
\<close>

datatype param_value = Undefined | Null | Str jsstring | Num int

type_synonym route_params = "jsstring \<Rightarrow> param_value"

definition digit_unit :: "nat \<Rightarrow> code_unit" where
  "digit_unit d = of_nat (48 + d)"

fun decimal :: "nat \<Rightarrow> jsstring" where
  "decimal n = (if n < 10 then [digit_unit n] else decimal (n div 10) @ [digit_unit (n mod 10)])"

fun js_String :: "param_value \<Rightarrow> jsstring" where
  "js_String Undefined = js ''undefined''"
| "js_String Null = js ''null''"
| "js_String (Str s) = s"
| "js_String (Num i) = (if i < 0 then chr16 CHR ''-'' # decimal (nat (- i)) else decimal (nat i))"

subsection \<open>encodeURIComponent\<close>

text \<open>
  ECMAScript's \<^verbatim>\<open>Encode\<close> with the unescaped set of \<^verbatim>\<open>encodeURIComponent\<close>:
  letters, digits and \<^verbatim>\<open>- _ . ! ~ * ' ( )\<close> are copied; every other code point is
  written as the percent-escapes of its UTF-8 octets; an unpaired surrogate raises
  \<^verbatim>\<open>URIError\<close> (the value \<open>None\<close>).
\<close>

definition uriUnescaped :: "code_unit \<Rightarrow> bool" where
  "uriUnescaped c =
     (c \<in> set (js ''abcdefghijklmnopqrstuvwxyzABCDEFGHIJKLMNOPQRSTUVWXYZ0123456789-_.!~*'()''))"

definition is_high_surrogate :: "code_unit \<Rightarrow> bool" where
  "is_high_surrogate u = (0xD800 \<le> u \<and> u \<le> 0xDBFF)"

definition is_low_surrogate :: "code_unit \<Rightarrow> bool" where
  "is_low_surrogate u = (0xDC00 \<le> u \<and> u \<le> 0xDFFF)"

definition surrogate_pair :: "code_unit \<Rightarrow> code_unit \<Rightarrow> nat" where
  "surrogate_pair hi lo = 0x10000 + (unat hi - 0xD800) * 0x400 + (unat lo - 0xDC00)"

definition utf8_encode :: "nat \<Rightarrow> nat list" where
  "utf8_encode cp =
     (if cp < 0x80 then [cp]
      else if cp < 0x800 then [0xC0 + cp div 64, 0x80 + cp mod 64]
      else if cp < 0x10000 then
        [0xE0 + cp div 4096, 0x80 + (cp div 64) mod 64, 0x80 + cp mod 64]
      else
        [0xF0 + cp div 262144, 0x80 + (cp div 4096) mod 64, 0x80 + (cp div 64) mod 64,
         0x80 + cp mod 64])"

definition hex_digit :: "nat \<Rightarrow> code_unit" where
  "hex_digit n = (if n < 10 then of_nat (48 + n) else of_nat (55 + n))"

definition percent_octet :: "nat \<Rightarrow> jsstring" where
  "percent_octet b = [chr16 CHR ''%'', hex_digit (b div 16), hex_digit (b mod 16)]"

definition percent_octets :: "nat list \<Rightarrow> jsstring" where
  "percent_octets bs = concat (map percent_octet bs)"

fun encodeURIComponent :: "jsstring \<Rightarrow> jsstring option" where
  "encodeURIComponent [] = Some []"
| "encodeURIComponent (c # cs) =
     (if uriUnescaped c then map_option ((#) c) (encodeURIComponent cs)
      else if is_low_surrogate c then None
      else if is_high_surrogate c then
        (case cs of
           [] \<Rightarrow> None
         | d # ds \<Rightarrow>
             if is_low_surrogate d
             then map_option ((@) (percent_octets (utf8_encode (surrogate_pair c d))))
                    (encodeURIComponent ds)
             else None)
      else map_option ((@) (percent_octets (utf8_encode (unat c)))) (encodeURIComponent cs))"

section \<open>Path interpolation (NamedRouterService.interpolatePathParams)\<close>

datatype js_error =
    Error jsstring
  | URIError
  | NamedRouteError jsstring
  | DuplicateRouteNameError jsstring jsstring jsstring

definition colon :: code_unit where "colon = chr16 CHR '':''"
definition slash :: code_unit where "slash = chr16 CHR ''/''"
definition qmark :: code_unit where "qmark = chr16 CHR ''?''"
definition lparen :: code_unit where "lparen = chr16 CHR ''(''"
definition rparen :: code_unit where "rparen = chr16 CHR '')''"

text \<open>
  The parsing of a placeholder segment, lines 191 to 203: the optionality test on the
  whole segment, \<^verbatim>\<open>substring(1)\<close>, \<^verbatim>\<open>slice(0, -1)\<close> when optional, then the cut at
  the first opening parenthesis.
\<close>

definition parse_placeholder :: "jsstring \<Rightarrow> bool \<times> jsstring" where
  "parse_placeholder segment =
     (let isOptional = endsWith segment qmark;
          paramName = drop 1 segment;
          paramName = (if isOptional then butlast paramName else paramName);
          parenIndex = indexOf paramName lparen;
          paramName = (if parenIndex \<noteq> -1 then take (nat parenIndex) paramName else paramName)
      in (isOptional, paramName))"

definition absent :: "param_value \<Rightarrow> bool" where
  "absent v = (v = Undefined \<or> v = Null)"

text \<open>
  The body of the \<^verbatim>\<open>for\<close> loop over the segments; the state is the pair of the arrays
  \<^verbatim>\<open>result\<close> and \<^verbatim>\<open>missingParams\<close>.
\<close>

type_synonym interp_state = "jsstring list \<times> jsstring list"

definition process_segment :: "route_params \<Rightarrow> interp_state \<Rightarrow> jsstring \<Rightarrow> js_error + interp_state" where
  "process_segment routeParams st segment =
     (case st of (result, missingParams) \<Rightarrow>
        if startsWith segment colon then
          (case parse_placeholder segment of (isOptional, paramName) \<Rightarrow>
             let paramValue = routeParams paramName in
             if \<not> absent paramValue then
               (case encodeURIComponent (js_String paramValue) of
                  None \<Rightarrow> Inl URIError
                | Some encoded \<Rightarrow> Inr (result @ [encoded], missingParams))
             else if \<not> isOptional then Inr (result, missingParams @ [paramName])
             else Inr (result, missingParams))
        else Inr (result @ [segment], missingParams))"

fun segments_loop :: "route_params \<Rightarrow> jsstring list \<Rightarrow> interp_state \<Rightarrow> js_error + interp_state" where
  "segments_loop routeParams [] st = Inr st"
| "segments_loop routeParams (segment # segments) st =
     (case process_segment routeParams st segment of
        Inl e \<Rightarrow> Inl e
      | Inr st' \<Rightarrow> segments_loop routeParams segments st')"

definition pattern_segments :: "jsstring \<Rightarrow> jsstring list" where
  "pattern_segments pathPattern = filter (\<lambda>s. length s > 0) (js_split slash pathPattern)"

definition missing_message :: "jsstring list \<Rightarrow> jsstring" where
  "missing_message missingParams =
     js ''Missing required route parameters: '' @ js_join (js '', '') missingParams"

definition interpolate_segments :: "route_params \<Rightarrow> jsstring list \<Rightarrow> js_error + jsstring list" where
  "interpolate_segments routeParams segments =
     (case segments_loop routeParams segments ([], []) of
        Inl e \<Rightarrow> Inl e
      | Inr (result, missingParams) \<Rightarrow>
          if length missingParams > 0 then Inl (Error (missing_message missingParams))
          else Inr result)"

text \<open>The pattern \<open>None\<close> is \<^verbatim>\<open>undefined\<close> (or \<^verbatim>\<open>null\<close>): \<^verbatim>\<open>!pathPattern\<close> holds for it and for the empty string.\<close>

definition interpolatePathParams :: "jsstring option \<Rightarrow> route_params \<Rightarrow> js_error + jsstring list" where
  "interpolatePathParams pathPattern routeParams =
     (case pathPattern of
        None \<Rightarrow> Inr [js ''/'']
      | Some p \<Rightarrow>
          if p = [] then Inr [js ''/'']
          else interpolate_segments routeParams (pattern_segments p))"

subsection \<open>The interpolation, as the specification words it\<close>

text \<open>
  What one segment contributes to the output, and which segments are required
  placeholders without a value: the definitions the loop is compared with.
\<close>

definition segment_output :: "route_params \<Rightarrow> jsstring \<Rightarrow> jsstring list" where
  "segment_output routeParams segment =
     (if startsWith segment colon then
        (let v = routeParams (snd (parse_placeholder segment)) in
         if absent v then []
         else (case encodeURIComponent (js_String v) of None \<Rightarrow> [] | Some e \<Rightarrow> [e]))
      else [segment])"

definition is_required_missing :: "route_params \<Rightarrow> jsstring \<Rightarrow> bool" where
  "is_required_missing routeParams segment =
     (startsWith segment colon \<and> \<not> endsWith segment qmark
      \<and> absent (routeParams (snd (parse_placeholder segment))))"

definition required_missing :: "route_params \<Rightarrow> jsstring list \<Rightarrow> jsstring list" where
  "required_missing routeParams segments =
     map (\<lambda>s. snd (parse_placeholder s)) (filter (is_required_missing routeParams) segments)"

text \<open>
  The value a placeholder segment reads has a percent-encoding: \<^verbatim>\<open>encodeURIComponent\<close>
  does not raise on its string form.
\<close>

definition value_encodes :: "route_params \<Rightarrow> jsstring \<Rightarrow> bool" where
  "value_encodes routeParams segment =
     (if startsWith segment colon \<and> \<not> absent (routeParams (snd (parse_placeholder segment)))
      then encodeURIComponent (js_String (routeParams (snd (parse_placeholder segment)))) \<noteq> None
      else True)"

text \<open>
  The effect of a placeholder segment on the loop state, as a function of its parameter
  name and optionality only.
\<close>

definition placeholder_result :: "route_params \<Rightarrow> interp_state \<Rightarrow> bool \<Rightarrow> jsstring \<Rightarrow> js_error + interp_state" where
  "placeholder_result rp st isOptional name =
     (if absent (rp name) then
        (if isOptional then Inr st else Inr (fst st, snd st @ [name]))
      else (case encodeURIComponent (js_String (rp name)) of
              None \<Rightarrow> Inl URIError
            | Some e \<Rightarrow> Inr (fst st @ [e], snd st)))"

text \<open>An optional placeholder whose parameter has no value.\<close>

definition optional_absent :: "route_params \<Rightarrow> jsstring \<Rightarrow> bool" where
  "optional_absent rp seg =
     (startsWith seg colon \<and> endsWith seg qmark \<and> absent (rp (snd (parse_placeholder seg))))"

subsection \<open>decodeURIComponent\<close>

text \<open>
  ECMAScript's \<^verbatim>\<open>Decode\<close> with the empty set of preserved escapes, the inverse that
  the round trip of an encoded segment is stated with. A code unit other than the percent
  sign is copied. A percent sign must be followed by two hexadecimal digits, an octet; an
  octet below \<open>0x80\<close> is the code unit itself; otherwise its leading one bits give the
  length of a UTF-8 sequence (two to four octets), whose further octets are read from
  the following escapes, and the sequence must be well-formed UTF-8 (Unicode, table 3-7);
  the code point is written in UTF-16. Everything else raises \<^verbatim>\<open>URIError\<close> (\<open>None\<close>).
\<close>

definition hex_value :: "code_unit \<Rightarrow> nat option" where
  "hex_value c =
     (if 0x30 \<le> c \<and> c \<le> 0x39 then Some (unat c - 0x30)
      else if 0x41 \<le> c \<and> c \<le> 0x46 then Some (unat c - 0x41 + 10)
      else if 0x61 \<le> c \<and> c \<le> 0x66 then Some (unat c - 0x61 + 10)
      else None)"

fun parse_hex_octet :: "jsstring \<Rightarrow> (nat \<times> jsstring) option" where
  "parse_hex_octet (h # l # rest) =
     (case hex_value h of
        None \<Rightarrow> None
      | Some a \<Rightarrow> (case hex_value l of None \<Rightarrow> None | Some b \<Rightarrow> Some (16 * a + b, rest)))"
| "parse_hex_octet cs = None"

definition leading_ones :: "nat \<Rightarrow> nat" where
  "leading_ones b =
     (if b < 0x80 then 0 else if b < 0xC0 then 1 else if b < 0xE0 then 2
      else if b < 0xF0 then 3 else if b < 0xF8 then 4 else 5)"

text \<open>The escapes of \<open>k\<close> further octets.\<close>

fun take_escapes :: "nat \<Rightarrow> jsstring \<Rightarrow> (nat list \<times> jsstring) option" where
  "take_escapes 0 cs = Some ([], cs)"
| "take_escapes (Suc k) [] = None"
| "take_escapes (Suc k) (c # cs) =
     (if c \<noteq> chr16 CHR ''%'' then None
      else (case parse_hex_octet cs of
              None \<Rightarrow> None
            | Some (b, rest) \<Rightarrow>
                (case take_escapes k rest of
                   None \<Rightarrow> None
                 | Some (bs, rest') \<Rightarrow> Some (b # bs, rest'))))"

definition continuation :: "nat \<Rightarrow> bool" where
  "continuation b = (0x80 \<le> b \<and> b \<le> 0xBF)"

definition valid_lead3 :: "nat \<Rightarrow> nat \<Rightarrow> bool" where
  "valid_lead3 b0 b1 =
     ((b0 = 0xE0 \<and> 0xA0 \<le> b1 \<and> b1 \<le> 0xBF) \<or>
      (0xE1 \<le> b0 \<and> b0 \<le> 0xEC \<and> continuation b1) \<or>
      (b0 = 0xED \<and> 0x80 \<le> b1 \<and> b1 \<le> 0x9F) \<or>
      (0xEE \<le> b0 \<and> b0 \<le> 0xEF \<and> continuation b1))"

definition valid_lead4 :: "nat \<Rightarrow> nat \<Rightarrow> bool" where
  "valid_lead4 b0 b1 =
     ((b0 = 0xF0 \<and> 0x90 \<le> b1 \<and> b1 \<le> 0xBF) \<or>
      (0xF1 \<le> b0 \<and> b0 \<le> 0xF3 \<and> continuation b1) \<or>
      (b0 = 0xF4 \<and> 0x80 \<le> b1 \<and> b1 \<le> 0x8F))"

fun utf8_decode :: "nat list \<Rightarrow> nat option" where
  "utf8_decode [b0, b1] =
     (if 0xC2 \<le> b0 \<and> b0 \<le> 0xDF \<and> continuation b1
      then Some ((b0 - 0xC0) * 64 + (b1 - 0x80)) else None)"
| "utf8_decode [b0, b1, b2] =
     (if valid_lead3 b0 b1 \<and> continuation b2
      then Some ((b0 - 0xE0) * 4096 + (b1 - 0x80) * 64 + (b2 - 0x80)) else None)"
| "utf8_decode [b0, b1, b2, b3] =
     (if valid_lead4 b0 b1 \<and> continuation b2 \<and> continuation b3
      then Some ((b0 - 0xF0) * 262144 + (b1 - 0x80) * 4096 + (b2 - 0x80) * 64 + (b3 - 0x80))
      else None)"
| "utf8_decode bs = None"

definition utf16_encode :: "nat \<Rightarrow> jsstring" where
  "utf16_encode cp =
     (if cp < 0x10000 then [of_nat cp]
      else [of_nat (0xD800 + (cp - 0x10000) div 0x400), of_nat (0xDC00 + (cp - 0x10000) mod 0x400)])"

lemma parse_hex_octet_length:
  "parse_hex_octet cs = Some (b, rest) \<Longrightarrow> length rest < length cs"
  by (cases cs rule: parse_hex_octet.cases) (auto split: option.splits)

lemma take_escapes_length:
  "take_escapes k cs = Some (bs, rest) \<Longrightarrow> length rest \<le> length cs"
proof (induction k cs arbitrary: bs rest rule: take_escapes.induct)
  case (3 k c cs)
  then show ?case
    by (fastforce split: if_splits option.splits dest: parse_hex_octet_length)
qed simp_all

function decodeURIComponent :: "jsstring \<Rightarrow> jsstring option" where
  "decodeURIComponent [] = Some []"
| "decodeURIComponent (c # cs) =
     (if c \<noteq> chr16 CHR ''%'' then map_option ((#) c) (decodeURIComponent cs)
      else (case parse_hex_octet cs of
              None \<Rightarrow> None
            | Some (b, rest) \<Rightarrow>
                (let n = leading_ones b in
                 if n = 0 then map_option ((#) (of_nat b)) (decodeURIComponent rest)
                 else if n = 1 \<or> n > 4 then None
                 else (case take_escapes (n - 1) rest of
                         None \<Rightarrow> None
                       | Some (bs, rest') \<Rightarrow>
                           (case utf8_decode (b # bs) of
                              None \<Rightarrow> None
                            | Some cp \<Rightarrow>
                                map_option ((@) (utf16_encode cp)) (decodeURIComponent rest'))))))"
  by pat_completeness auto
termination
proof (relation "measure length")
  fix c :: code_unit and cs x2 x y n x2a xa ya x2b
  assume "parse_hex_octet cs = Some x2" "(x, y) = x2" "take_escapes (n - 1) y = Some x2a"
    "(xa, ya) = x2a"
  then have "length ya < length cs"
    using parse_hex_octet_length [of cs x y] take_escapes_length [of "n - 1" y xa ya] by simp
  then show "(ya, c # cs) \<in> measure length" by simp
qed (auto dest: parse_hex_octet_length)

text \<open>A string without unpaired surrogates.\<close>

fun well_formed :: "jsstring \<Rightarrow> bool" where
  "well_formed [] = True"
| "well_formed [c] = (\<not> is_high_surrogate c \<and> \<not> is_low_surrogate c)"
| "well_formed (c # d # cs) =
     (if is_high_surrogate c then is_low_surrogate d \<and> well_formed cs
      else \<not> is_low_surrogate c \<and> well_formed (d # cs))"

text \<open>A Unicode scalar value: a code point that is not a surrogate.\<close>

definition scalar_value :: "nat \<Rightarrow> bool" where
  "scalar_value cp = (cp < 0x110000 \<and> \<not> (0xD800 \<le> cp \<and> cp \<le> 0xDFFF))"

text \<open>The code units of an encoded component: the unescaped ones and the percent sign of an escape (whose digits are unescaped themselves).\<close>

definition uri_character :: "code_unit \<Rightarrow> bool" where
  "uri_character c = (uriUnescaped c \<or> c = chr16 CHR ''%'')"

section \<open>The route registry (NamedRouteService)\<close>

subsection \<open>Route configuration\<close>

text \<open>
  A \<^verbatim>\<open>Route\<close> with the four properties the service reads; \<open>None\<close> is a property that
  is not set. A lazy loader is given by what the promise it returns settles to: it
  rejects with a message, or it resolves to a value of one of the shapes
  \<^verbatim>\<open>extractRoutesFromLazyModule\<close> distinguishes: an array, an object with an array
  \<^verbatim>\<open>default\<close>, an object with an array \<^verbatim>\<open>routes\<close>, a module for which
  \<^verbatim>\<open>extractRoutesFromNgModule\<close> finds the given routes, or anything else. The resolved
  configuration is a finite tree.
\<close>

datatype route =
  Route (route_path: "jsstring option") (route_name: "jsstring option")
    (route_children: "route list option") (route_loadChildren: "lazy option")
and lazy = Rejects jsstring | Resolves loaded
and loaded =
    LoadedArray "route list"
  | LoadedDefault "route list"
  | LoadedRoutes "route list"
  | LoadedModule "route list"
  | LoadedOther

text \<open>\<^verbatim>\<open>this.router?.config\<close>: missing, something that is not an array, or the root routes.\<close>

datatype config = ConfigMissing | ConfigNotArray | ConfigRoutes "route list"

fun extractRoutesFromLazyModule :: "loaded \<Rightarrow> route list" where
  "extractRoutesFromLazyModule (LoadedArray rs) = rs"
| "extractRoutesFromLazyModule (LoadedDefault rs) = rs"
| "extractRoutesFromLazyModule (LoadedRoutes rs) = rs"
| "extractRoutesFromLazyModule (LoadedModule rs) = rs"
| "extractRoutesFromLazyModule LoadedOther = []"

subsection \<open>Errors\<close>

definition apostrophe :: code_unit where "apostrophe = 0x27"

definition quoted :: "jsstring \<Rightarrow> jsstring" where
  "quoted s = [apostrophe] @ s @ [apostrophe]"

text \<open>The \<^verbatim>\<open>message\<close> of an error; for the two classes of part_001 it is built by the constructor.\<close>

fun error_message :: "js_error \<Rightarrow> jsstring" where
  "error_message (Error msg) = msg"
| "error_message URIError = js ''URI malformed''"
| "error_message (NamedRouteError msg) = msg"
| "error_message (DuplicateRouteNameError routeName existingPath newPath) =
     js ''Duplicate route name '' @ quoted routeName @ js '' detected. '' @
     js ''Existing path: '' @ quoted existingPath @ js '', New path: '' @ quoted newPath @ js ''. '' @
     js ''Route names must be unique across the entire application.''"

text \<open>\<^verbatim>\<open>error instanceof NamedRouteError\<close>; \<^verbatim>\<open>DuplicateRouteNameError\<close> extends it.\<close>

fun is_NamedRouteError :: "js_error \<Rightarrow> bool" where
  "is_NamedRouteError (NamedRouteError msg) = True"
| "is_NamedRouteError (DuplicateRouteNameError routeName existingPath newPath) = True"
| "is_NamedRouteError e = False"

text \<open>The three \<^verbatim>\<open>catch\<close> blocks, as functions from the error caught to the error thrown.\<close>

definition catch_buildRouteMap :: "route \<Rightarrow> js_error \<Rightarrow> js_error" where
  "catch_buildRouteMap route error =
     (if is_NamedRouteError error then error
      else NamedRouteError
             (js ''Failed to process route '' @
              quoted (case route_path route of None \<Rightarrow> js ''<no-path>'' | Some p \<Rightarrow> p) @
              js '': '' @ error_message error))"

definition catch_processLazyRoute :: "jsstring \<Rightarrow> js_error \<Rightarrow> js_error" where
  "catch_processLazyRoute fullPath error =
     NamedRouteError
       (js ''Failed to load lazy module at path '' @ quoted fullPath @ js '': '' @
        error_message error)"

definition catch_performInitialization :: "js_error \<Rightarrow> js_error" where
  "catch_performInitialization error =
     (if is_NamedRouteError error then error
      else NamedRouteError (js ''Failed to initialize named routes: '' @ error_message error))"

subsection \<open>joinPaths and registerRoute\<close>

text \<open>\<^verbatim>\<open>s.replace(/\/+/g, '/')\<close>: every run of slashes becomes one slash.\<close>

fun collapse_slashes :: "jsstring \<Rightarrow> jsstring" where
  "collapse_slashes (a # b # cs) =
     (if a = slash \<and> b = slash then collapse_slashes (b # cs)
      else a # collapse_slashes (b # cs))"
| "collapse_slashes cs = cs"

definition joinPaths :: "jsstring \<Rightarrow> jsstring option \<Rightarrow> jsstring" where
  "joinPaths parent child =
     (case child of
        None \<Rightarrow> parent
      | Some c \<Rightarrow>
          if c = [] then parent
          else if parent = [] then c
          else collapse_slashes (parent @ [slash] @ c))"

text \<open>The white space and line terminators that \<^verbatim>\<open>String.prototype.trim\<close> removes.\<close>

definition is_whitespace :: "code_unit \<Rightarrow> bool" where
  "is_whitespace c =
     (c \<in> set [0x09, 0x0A, 0x0B, 0x0C, 0x0D, 0x20, 0xA0, 0x1680, 0x2000, 0x2001, 0x2002,
               0x2003, 0x2004, 0x2005, 0x2006, 0x2007, 0x2008, 0x2009, 0x200A, 0x2028,
               0x2029, 0x202F, 0x205F, 0x3000, 0xFEFF])"

definition js_trim :: "jsstring \<Rightarrow> jsstring" where
  "js_trim s = rev (dropWhile is_whitespace (rev (dropWhile is_whitespace s)))"

text \<open>
  The \<^verbatim>\<open>Map\<close> from names to paths, in insertion order. \<^verbatim>\<open>Map.set\<close> replaces the
  value of a key in place or appends a new entry.
\<close>

type_synonym route_map = "(jsstring \<times> jsstring) list"

fun map_set :: "jsstring \<Rightarrow> jsstring \<Rightarrow> route_map \<Rightarrow> route_map" where
  "map_set k v [] = [(k, v)]"
| "map_set k v ((k', v') # m) = (if k' = k then (k, v) # m else (k', v') # map_set k v m)"

definition registerRoute :: "jsstring \<Rightarrow> jsstring \<Rightarrow> route_map \<Rightarrow> js_error + route_map" where
  "registerRoute name path m =
     (if js_trim name = [] then Inr m
      else (case map_of m name of
              Some existingPath \<Rightarrow> Inl (DuplicateRouteNameError name existingPath path)
            | None \<Rightarrow> Inr (map_set name path m)))"

text \<open>Step 2 of \<^verbatim>\<open>processRoute\<close>: \<^verbatim>\<open>if (namedRoute.name) this.registerRoute(...)\<close>.\<close>

definition register_if_named :: "route \<Rightarrow> jsstring \<Rightarrow> route_map \<Rightarrow> js_error + route_map" where
  "register_if_named route fullPath m =
     (case route_name route of
        None \<Rightarrow> Inr m
      | Some name \<Rightarrow> if name = [] then Inr m else registerRoute name fullPath m)"

subsection \<open>The traversal as an asynchronous computation\<close>

text \<open>
  \<^verbatim>\<open>performInitialization\<close>, \<^verbatim>\<open>buildRouteMap\<close>, \<^verbatim>\<open>processRoute\<close> and
  \<^verbatim>\<open>processLazyRoute\<close> are \<^verbatim>\<open>async\<close> functions that call each other under \<^verbatim>\<open>await\<close>.
  One invocation of \<^verbatim>\<open>performInitialization\<close> is a single thread of control: it runs
  without interruption up to an \<^verbatim>\<open>await\<close>, is suspended there, and other code may run
  before it is resumed. A suspended invocation is the list of what it has left to do:

  \<^item> \<open>Routes rs p\<close>: the remaining iterations of the loop of \<^verbatim>\<open>buildRouteMap(routes, p)\<close>;
  \<^item> \<open>Children r fp\<close>: step 3 of \<^verbatim>\<open>processRoute\<close> for the route \<open>r\<close> with full path \<open>fp\<close>;
  \<^item> \<open>Lazy r fp\<close>: step 4 of \<^verbatim>\<open>processRoute\<close>;
  \<^item> \<open>Loaded l fp\<close>: \<^verbatim>\<open>processLazyRoute\<close> after \<^verbatim>\<open>await route.loadChildren()\<close>;
  \<^item> \<open>EndLazy fp\<close>: the end of the \<^verbatim>\<open>try\<close> block of \<^verbatim>\<open>processLazyRoute\<close>;
  \<^item> \<open>EndRoute r\<close>: the end of the \<^verbatim>\<open>try\<close> block in the loop of \<^verbatim>\<open>buildRouteMap\<close>;
  \<^item> \<open>Await\<close>: the suspension of an \<^verbatim>\<open>await\<close> whose operand has completed.

  Every \<^verbatim>\<open>await\<close> suspends, also on a promise that is already settled.
\<close>

datatype frame =
    Routes "route list" jsstring
  | Children route jsstring
  | Lazy route jsstring
  | Loaded lazy jsstring
  | EndLazy jsstring
  | EndRoute route
  | Await

text \<open>
  An error thrown with the frames \<open>K\<close> left passes the \<^verbatim>\<open>catch\<close> blocks of the
  enclosing \<^verbatim>\<open>try\<close> blocks, innermost first, up to the \<^verbatim>\<open>catch\<close> of
  \<^verbatim>\<open>performInitialization\<close>.
\<close>

fun unwind :: "js_error \<Rightarrow> frame list \<Rightarrow> js_error" where
  "unwind e [] = e"
| "unwind e (EndRoute r # K) = unwind (catch_buildRouteMap r e) K"
| "unwind e (EndLazy fp # K) = unwind (catch_processLazyRoute fp e) K"
| "unwind e (f # K) = unwind e K"

text \<open>
  A suspended invocation either continues with its frames or, when an error is on its way
  to the \<^verbatim>\<open>catch\<close> of \<^verbatim>\<open>performInitialization\<close>, carries that error: between a
  \<^verbatim>\<open>throw\<close> under \<^verbatim>\<open>await this.buildRouteMap(rootRoutes, '')\<close> and that \<^verbatim>\<open>catch\<close> lies
  at least the suspension of this \<^verbatim>\<open>await\<close>.
\<close>

datatype thread_state = Continue "frame list" | Throwing js_error

datatype segment_result = Suspend thread_state | Fulfil

text \<open>The state a traversal works on: the map and the log of the loader invocations (the full paths at which \<^verbatim>\<open>route.loadChildren()\<close> was called).\<close>

type_synonym trav_state = "route_map \<times> jsstring list"

fun weight_route :: "route \<Rightarrow> nat" and weight_lazy :: "lazy \<Rightarrow> nat"
  and weight_loaded :: "loaded \<Rightarrow> nat" where
  "weight_route (Route p n cs lz) =
     5 + (case cs of None \<Rightarrow> 0 | Some rs \<Rightarrow> 2 + sum_list (map weight_route rs))
       + (case lz of None \<Rightarrow> 0 | Some l \<Rightarrow> 3 + weight_lazy l)"
| "weight_lazy (Rejects msg) = 0"
| "weight_lazy (Resolves ld) = 2 + weight_loaded ld"
| "weight_loaded (LoadedArray rs) = sum_list (map weight_route rs)"
| "weight_loaded (LoadedDefault rs) = sum_list (map weight_route rs)"
| "weight_loaded (LoadedRoutes rs) = sum_list (map weight_route rs)"
| "weight_loaded (LoadedModule rs) = sum_list (map weight_route rs)"
| "weight_loaded LoadedOther = 0"

fun weight_frame :: "frame \<Rightarrow> nat" where
  "weight_frame (Routes rs p) = 1 + sum_list (map weight_route rs)"
| "weight_frame (Children r fp) =
     1 + (case route_children r of None \<Rightarrow> 0 | Some rs \<Rightarrow> 2 + sum_list (map weight_route rs))"
| "weight_frame (Lazy r fp) =
     1 + (case route_loadChildren r of None \<Rightarrow> 0 | Some l \<Rightarrow> 3 + weight_lazy l)"
| "weight_frame (Loaded l fp) = 1 + weight_lazy l"
| "weight_frame (EndLazy fp) = 1"
| "weight_frame (EndRoute r) = 1"
| "weight_frame Await = 1"

definition weight :: "frame list \<Rightarrow> nat" where
  "weight K = sum_list (map weight_frame K)"

lemma weight_extract: "sum_list (map weight_route (extractRoutesFromLazyModule ld)) = weight_loaded ld"
  by (cases ld) simp_all

lemma weight_route_unfold:
  "weight_route r =
     5 + (case route_children r of None \<Rightarrow> 0 | Some rs \<Rightarrow> 2 + sum_list (map weight_route rs))
       + (case route_loadChildren r of None \<Rightarrow> 0 | Some l \<Rightarrow> 3 + weight_lazy l)"
  by (cases r) simp

text \<open>
  One uninterrupted run of an invocation: from its frames to the next suspension, or to
  the end of \<^verbatim>\<open>await this.buildRouteMap(rootRoutes, '')\<close>, after which
  \<^verbatim>\<open>performInitialization\<close> sets the flag.
\<close>

function run_segment :: "frame list \<Rightarrow> trav_state \<Rightarrow> segment_result \<times> trav_state" where
  "run_segment [] st = (Fulfil, st)"
| "run_segment (Await # K) st = (Suspend (Continue K), st)"
| "run_segment (EndLazy fp # K) st = run_segment K st"
| "run_segment (EndRoute r # K) st = run_segment K st"
| "run_segment (Routes [] parentPath # K) st = run_segment K st"
| "run_segment (Routes (route # routes) parentPath # K) st =
     (let fullPath = joinPaths parentPath (route_path route);
          K' = Await # EndRoute route # Routes routes parentPath # K
      in case register_if_named route fullPath (fst st) of
           Inl e \<Rightarrow> (Suspend (Throwing (unwind e K')), st)
         | Inr m \<Rightarrow>
             run_segment (Children route fullPath # Lazy route fullPath # K') (m, snd st))"
| "run_segment (Children route fullPath # K) st =
     (case route_children route of
        None \<Rightarrow> run_segment K st
      | Some cs \<Rightarrow> run_segment (Routes cs fullPath # Await # K) st)"
| "run_segment (Lazy route fullPath # K) st =
     (case route_loadChildren route of
        None \<Rightarrow> run_segment K st
      | Some l \<Rightarrow>
          (Suspend (Continue (Loaded l fullPath # EndLazy fullPath # Await # K)),
           (fst st, snd st @ [fullPath])))"
| "run_segment (Loaded l fullPath # K) st =
     (case l of
        Rejects msg \<Rightarrow> (Suspend (Throwing (unwind (Error msg) K)), st)
      | Resolves ld \<Rightarrow>
          (let childRoutes = extractRoutesFromLazyModule ld
           in if length childRoutes > 0
              then run_segment (Routes childRoutes fullPath # Await # K) st
              else run_segment K st))"
  by pat_completeness auto
termination
  by (relation "measure (\<lambda>(K, st). weight K)")
     (auto simp: weight_def weight_route_unfold weight_extract split: option.splits)

subsection \<open>The traversal without interruption\<close>

text \<open>
  The three functions read as sequential code, every \<^verbatim>\<open>await\<close> returning at once: the
  result is the error thrown, if any, and the state left behind. \<^verbatim>\<open>processLazyRoute\<close>
  is given what the loader of its route settles to.
\<close>

function buildRouteMap :: "route list \<Rightarrow> jsstring \<Rightarrow> trav_state \<Rightarrow> js_error option \<times> trav_state"
  and processRoute :: "route \<Rightarrow> jsstring \<Rightarrow> trav_state \<Rightarrow> js_error option \<times> trav_state"
  and processLazyRoute :: "lazy \<Rightarrow> jsstring \<Rightarrow> trav_state \<Rightarrow> js_error option \<times> trav_state"
where
  "buildRouteMap [] parentPath st = (None, st)"
| "buildRouteMap (route # routes) parentPath st =
     (case processRoute route parentPath st of
        (Some e, st') \<Rightarrow> (Some (catch_buildRouteMap route e), st')
      | (None, st') \<Rightarrow> buildRouteMap routes parentPath st')"
| "processRoute route parentPath st =
     (let fullPath = joinPaths parentPath (route_path route) in
      case register_if_named route fullPath (fst st) of
        Inl e \<Rightarrow> (Some e, st)
      | Inr m \<Rightarrow>
          (case (case route_children route of
                   None \<Rightarrow> (None, (m, snd st))
                 | Some cs \<Rightarrow> buildRouteMap cs fullPath (m, snd st)) of
             (Some e, st') \<Rightarrow> (Some e, st')
           | (None, st') \<Rightarrow>
               (case route_loadChildren route of
                  None \<Rightarrow> (None, st')
                | Some l \<Rightarrow> processLazyRoute l fullPath st')))"
| "processLazyRoute l fullPath st =
     (let st1 = (fst st, snd st @ [fullPath]) in
      case l of
        Rejects msg \<Rightarrow> (Some (catch_processLazyRoute fullPath (Error msg)), st1)
      | Resolves ld \<Rightarrow>
          (let childRoutes = extractRoutesFromLazyModule ld in
           if length childRoutes > 0 then
             (case buildRouteMap childRoutes fullPath st1 of
                (Some e, st') \<Rightarrow> (Some (catch_processLazyRoute fullPath e), st')
              | (None, st') \<Rightarrow> (None, st'))
           else (None, st1)))"
  by pat_completeness auto
termination
  by (relation "measure (\<lambda>x. case x of
          Inl (rs, p, st) \<Rightarrow> 1 + sum_list (map weight_route rs)
        | Inr (Inl (r, p, st)) \<Rightarrow> weight_route r
        | Inr (Inr (l, p, st)) \<Rightarrow> 1 + weight_lazy l)")
     (auto simp: weight_route_unfold weight_extract split: option.splits)

text \<open>
  A suspended invocation resumed again and again, with nothing in between, until it has
  fulfilled or is about to reject.
\<close>

lemma run_segment_weight:
  "run_segment K st = (Suspend (Continue K'), st') \<Longrightarrow> weight K' < weight K"
proof (induction K st rule: run_segment.induct)
  case (6 route routes parentPath K st)
  show ?case
  proof (cases "register_if_named route (joinPaths parentPath (route_path route)) (fst st)")
    case (Inl e)
    with "6.prems" show ?thesis by (simp add: Let_def)
  next
    case (Inr m)
    with "6.prems" "6.IH" [OF refl refl Inr] show ?thesis
      by (simp add: Let_def weight_def weight_route_unfold del: run_segment.simps(7))
  qed
next
  case (7 route fullPath K st)
  show ?case
  proof (cases "route_children route")
    case None
    with "7.prems" have "run_segment K st = (Suspend (Continue K'), st')" by simp
    from "7.IH"(1) [OF None this] show ?thesis by (simp add: weight_def)
  next
    case (Some cs)
    with "7.prems" have "run_segment (Routes cs fullPath # Await # K) st = (Suspend (Continue K'), st')"
      by (simp del: run_segment.simps(5,6))
    from "7.IH"(2) [OF Some this] Some show ?thesis by (simp add: weight_def)
  qed
next
  case (8 route fullPath K st)
  then show ?case by (cases "route_loadChildren route") (auto simp: weight_def)
next
  case (9 l fullPath K st)
  show ?case
  proof (cases l)
    case (Rejects msg)
    with "9.prems" show ?thesis by simp
  next
    case (Resolves ld)
    show ?thesis
    proof (cases "0 < length (extractRoutesFromLazyModule ld)")
      case True
      with Resolves "9.prems"
      have "run_segment (Routes (extractRoutesFromLazyModule ld) fullPath # Await # K) st =
              (Suspend (Continue K'), st')"
        by (simp add: Let_def del: run_segment.simps(5,6))
      from "9.IH"(1) [OF Resolves refl True this] Resolves show ?thesis
        by (simp add: weight_def weight_extract)
    next
      case False
      with Resolves "9.prems" have "run_segment K st = (Suspend (Continue K'), st')"
        by (simp add: Let_def)
      from "9.IH"(2) [OF Resolves refl False this] show ?thesis by (simp add: weight_def)
    qed
  qed
qed (auto simp: weight_def)

function drive :: "frame list \<Rightarrow> trav_state \<Rightarrow> js_error option \<times> trav_state" where
  "drive K st =
     (case run_segment K st of
        (Fulfil, st') \<Rightarrow> (None, st')
      | (Suspend (Throwing e), st') \<Rightarrow> (Some e, st')
      | (Suspend (Continue K'), st') \<Rightarrow> drive K' st')"
  by pat_completeness auto
termination
  by (relation "measure (\<lambda>(K, st). weight K)") (auto dest: run_segment_weight [OF sym])

text \<open>
  A result of the uninterrupted functions, continued with the frames \<open>K\<close>: an error
  passes the \<^verbatim>\<open>catch\<close> blocks of \<open>K\<close>, a normal return drives \<open>K\<close> on.
\<close>

definition then_drive :: "js_error option \<times> trav_state \<Rightarrow> frame list \<Rightarrow> js_error option \<times> trav_state" where
  "then_drive r K = (case r of (Some e, st') \<Rightarrow> (Some (unwind e K), st') | (None, st') \<Rightarrow> drive K st')"

text \<open>
  The routes with a loader, each by its full path, in the order of the traversal: below
  a route first those of its children, then the route itself if it has a loader, followed
  by those of the routes its loader resolves to.
\<close>

function lazy_paths :: "route list \<Rightarrow> jsstring \<Rightarrow> jsstring list"
  and lazy_paths_route :: "route \<Rightarrow> jsstring \<Rightarrow> jsstring list"
  and lazy_paths_loader :: "lazy \<Rightarrow> jsstring \<Rightarrow> jsstring list"
where
  "lazy_paths [] parentPath = []"
| "lazy_paths (route # routes) parentPath =
     lazy_paths_route route parentPath @ lazy_paths routes parentPath"
| "lazy_paths_route route parentPath =
     (let fullPath = joinPaths parentPath (route_path route) in
      (case route_children route of None \<Rightarrow> [] | Some cs \<Rightarrow> lazy_paths cs fullPath) @
      (case route_loadChildren route of None \<Rightarrow> [] | Some l \<Rightarrow> lazy_paths_loader l fullPath))"
| "lazy_paths_loader l fullPath =
     fullPath #
     (case l of
        Rejects msg \<Rightarrow> []
      | Resolves ld \<Rightarrow> lazy_paths (extractRoutesFromLazyModule ld) fullPath)"
  by pat_completeness auto
termination
  by (relation "measure (\<lambda>x. case x of
          Inl (rs, p) \<Rightarrow> 1 + sum_list (map weight_route rs)
        | Inr (Inl (r, p)) \<Rightarrow> weight_route r
        | Inr (Inr (l, p)) \<Rightarrow> 1 + weight_lazy l)")
     (auto simp: weight_route_unfold weight_extract split: option.splits)

text \<open>A route with no lazy loader, on itself or anywhere among its children.\<close>

fun eager :: "route \<Rightarrow> bool" where
  "eager (Route p n cs lz) =
     (lz = None \<and> (case cs of None \<Rightarrow> True | Some rs \<Rightarrow> list_all eager rs))"

subsection \<open>The service and its callers\<close>

text \<open>
  The three fields of the service, and what the model keeps beside them: the log of the
  loader invocations, the suspended invocations of \<^verbatim>\<open>performInitialization\<close> (each with
  the number of the promise it returned), the promises that are settled (\<open>None\<close>:
  fulfilled; \<open>Some e\<close>: rejected with \<open>e\<close>) and the number of promises created.
\<close>

record system =
  routeMap :: route_map
  isInitialized :: bool
  initializationPromise :: "nat option"
  loaderCalls :: "jsstring list"
  threads :: "(nat \<times> thread_state) list"
  settled :: "(nat \<times> js_error option) list"
  promises :: nat

definition init_system :: system where
  "init_system =
     \<lparr>routeMap = [], isInitialized = False, initializationPromise = None, loaderCalls = [],
      threads = [], settled = [], promises = 0\<rparr>"

text \<open>The effect of one run of the invocation with promise \<open>pid\<close> on the system.\<close>

fun apply_segment :: "nat \<Rightarrow> segment_result \<times> trav_state \<Rightarrow> system \<Rightarrow> system" where
  "apply_segment pid (Suspend ts, (m, calls)) s =
     s\<lparr>routeMap := m, loaderCalls := calls, threads := threads s @ [(pid, ts)]\<rparr>"
| "apply_segment pid (Fulfil, (m, calls)) s =
     s\<lparr>routeMap := m, loaderCalls := calls, isInitialized := True,
       settled := settled s @ [(pid, None)]\<rparr>"

text \<open>The \<^verbatim>\<open>catch\<close> block of \<^verbatim>\<open>performInitialization\<close>, entered with \<open>error\<close>.\<close>

definition catch_block :: "nat \<Rightarrow> js_error \<Rightarrow> system \<Rightarrow> system" where
  "catch_block pid error s =
     s\<lparr>initializationPromise := None,
       settled := settled s @ [(pid, Some (catch_performInitialization error))]\<rparr>"

text \<open>
  The call \<^verbatim>\<open>this.performInitialization()\<close>, up to the point where it returns its
  promise \<open>pid\<close>: the body runs to its first suspension. A missing configuration throws
  inside the \<^verbatim>\<open>try\<close> before any \<^verbatim>\<open>await\<close>, so the \<^verbatim>\<open>catch\<close> block runs within the
  call. A configuration that is not an array makes \<^verbatim>\<open>buildRouteMap\<close> throw; this
  rejects the promise under \<^verbatim>\<open>await\<close>.
\<close>

definition performInitialization :: "config \<Rightarrow> nat \<Rightarrow> system \<Rightarrow> system" where
  "performInitialization cfg pid s =
     (case cfg of
        ConfigMissing \<Rightarrow>
          catch_block pid
            (NamedRouteError
               (js ''Router configuration is not available. Ensure the router is properly configured.''))
            s
      | ConfigNotArray \<Rightarrow>
          s\<lparr>threads := threads s @
              [(pid, Throwing (NamedRouteError (js ''Invalid routes configuration: expected an array'')))]\<rparr>
      | ConfigRoutes rootRoutes \<Rightarrow>
          apply_segment pid (run_segment [Routes rootRoutes [], Await] (routeMap s, loaderCalls s)) s)"

text \<open>
  What a call of \<^verbatim>\<open>initialize\<close> returns: a promise that is already fulfilled, or one
  that settles as the stored promise with the given number does.
\<close>

datatype init_result = Resolved | Awaits nat

definition initialize :: "config \<Rightarrow> system \<Rightarrow> init_result \<times> system" where
  "initialize cfg s =
     (if isInitialized s then (Resolved, s)
      else (case initializationPromise s of
              Some p \<Rightarrow> (Awaits p, s)
            | None \<Rightarrow>
                (let pid = promises s;
                     s1 = performInitialization cfg pid (s\<lparr>promises := Suc pid\<rparr>);
                     s2 = s1\<lparr>initializationPromise := Some pid\<rparr>
                 in (Awaits pid, s2))))"

definition reset :: "system \<Rightarrow> system" where
  "reset s = s\<lparr>routeMap := [], isInitialized := False, initializationPromise := None\<rparr>"

definition refresh :: "config \<Rightarrow> system \<Rightarrow> init_result \<times> system" where
  "refresh cfg s = initialize cfg (reset s)"

text \<open>The scheduler resumes the suspended invocation with promise \<open>pid\<close>, if there is one.\<close>

definition resume :: "nat \<Rightarrow> system \<Rightarrow> system" where
  "resume pid s =
     (case map_of (threads s) pid of
        None \<Rightarrow> s
      | Some ts \<Rightarrow>
          (let s' = s\<lparr>threads := filter (\<lambda>t. fst t \<noteq> pid) (threads s)\<rparr>
           in case ts of
                Throwing e \<Rightarrow> catch_block pid e s'
              | Continue K \<Rightarrow> apply_segment pid (run_segment K (routeMap s, loaderCalls s)) s'))"

definition getRoutePath :: "jsstring \<Rightarrow> system \<Rightarrow> jsstring option" where
  "getRoutePath name s = (if name = [] then None else map_of (routeMap s) name)"

definition hasRoute :: "jsstring \<Rightarrow> system \<Rightarrow> bool" where
  "hasRoute name s = (map_of (routeMap s) name \<noteq> None)"

definition getAllRouteNames :: "system \<Rightarrow> jsstring list" where
  "getAllRouteNames s = map fst (routeMap s)"

text \<open>
  What can happen to the service: a caller calls \<^verbatim>\<open>initialize\<close>, \<^verbatim>\<open>reset\<close> or
  \<^verbatim>\<open>refresh\<close> (the router configuration read at that moment is part of the event), or a
  suspended invocation is resumed.
\<close>

datatype event = CallInitialize config | CallReset | CallRefresh config | Resume nat

fun apply_event :: "event \<Rightarrow> system \<Rightarrow> system" where
  "apply_event (CallInitialize cfg) s = snd (initialize cfg s)"
| "apply_event CallReset s = reset s"
| "apply_event (CallRefresh cfg) s = snd (refresh cfg s)"
| "apply_event (Resume pid) s = resume pid s"

fun run_events :: "event list \<Rightarrow> system \<Rightarrow> system" where
  "run_events [] s = s"
| "run_events (ev # evs) s = run_events evs (apply_event ev s)"

text \<open>
  The invariant of the map: no key is blank, that is, empty after \<^verbatim>\<open>trim()\<close>. The
  empty string is blank.
\<close>

definition nonblank_keys :: "route_map \<Rightarrow> bool" where
  "nonblank_keys m = list_all (\<lambda>k. js_trim k \<noteq> []) (map fst m)"

text \<open>The events that do not clear the map.\<close>

fun keeps_registry :: "event \<Rightarrow> bool" where
  "keeps_registry (CallInitialize cfg) = True"
| "keeps_registry (Resume pid) = True"
| "keeps_registry CallReset = False"
| "keeps_registry (CallRefresh cfg) = False"

text \<open>\<^verbatim>\<open>error instanceof DuplicateRouteNameError\<close>.\<close>

fun is_DuplicateRouteNameError :: "js_error \<Rightarrow> bool" where
  "is_DuplicateRouteNameError (DuplicateRouteNameError routeName existingPath newPath) = True"
| "is_DuplicateRouteNameError e = False"

text \<open>No promise of a build has been rejected.\<close>

definition no_rejection :: "system \<Rightarrow> bool" where
  "no_rejection s = list_all (\<lambda>x. snd x = None) (settled s)"

text \<open>
  The invariant of a service on which one build was started in its initial state and
  no \<^verbatim>\<open>reset\<close> followed: unless some build was rejected, there is the one promise, it is
  stored, and the traversal is suspended with frames that drive to the result \<open>R\<close>, is
  about to reject with the error of \<open>R\<close>, or has fulfilled leaving the state of \<open>R\<close>.
\<close>

definition single_build :: "js_error option \<times> trav_state \<Rightarrow> system \<Rightarrow> bool" where
  "single_build R s =
     (\<not> no_rejection s \<or>
      (promises s = 1 \<and> initializationPromise s = Some 0 \<and>
       ((\<exists>K. threads s = [(0, Continue K)] \<and> \<not> isInitialized s \<and> settled s = [] \<and>
             drive K (routeMap s, loaderCalls s) = R) \<or>
        (\<exists>e. threads s = [(0, Throwing e)] \<and> \<not> isInitialized s \<and> settled s = [] \<and>
             (Some e, (routeMap s, loaderCalls s)) = R) \<or>
        (threads s = [] \<and> isInitialized s \<and> settled s = [(0, None)] \<and>
             (None, (routeMap s, loaderCalls s)) = R))))"

section \<open>Properties of the path interpolation\<close>

lemma js_split_nonempty: "js_split sep s \<noteq> []"
  by (induction s) (auto split: list.splits)

lemma fst_parse_placeholder: "fst (parse_placeholder s) = endsWith s qmark"
  by (simp add: parse_placeholder_def Let_def)

lemma segments_loop_append:
  "segments_loop rp (xs @ ys) st =
     (case segments_loop rp xs st of Inl e \<Rightarrow> Inl e | Inr st' \<Rightarrow> segments_loop rp ys st')"
  by (induction xs arbitrary: st) (auto split: sum.splits)

lemma process_segment_collect:
  "value_encodes rp seg \<Longrightarrow>
   process_segment rp (res, miss) seg =
     Inr (res @ segment_output rp seg, miss @ required_missing rp [seg])"
  by (cases "parse_placeholder seg")
     (auto simp: process_segment_def value_encodes_def segment_output_def required_missing_def
        is_required_missing_def fst_parse_placeholder[symmetric] Let_def split: option.splits)

lemma segments_loop_collect:
  "list_all (value_encodes rp) segs \<Longrightarrow>
   segments_loop rp segs (res, miss) =
     Inr (res @ concat (map (segment_output rp) segs), miss @ required_missing rp segs)"
proof (induction segs arbitrary: res miss)
  case Nil
  then show ?case by (simp add: required_missing_def)
next
  case (Cons s segs)
  then show ?case
    by (simp add: process_segment_collect) (simp add: required_missing_def)
qed

text \<open>
  Claim C3, as amended. When no supplied value fails to encode and at least one required
  placeholder of a non-empty pattern has no value (\<^verbatim>\<open>undefined\<close> or \<^verbatim>\<open>null\<close>), the
  loop runs over all segments and the call then fails with the error whose message is
  \<^verbatim>\<open>Missing required route parameters: \<close> followed by the names of all such
  placeholders, in pattern order, joined by a comma and a space. The message holds
  nothing else: neither a route name nor the pattern.
\<close>

theorem interpolate_missing:
  assumes "pathPattern \<noteq> []"
    and "list_all (value_encodes rp) (pattern_segments pathPattern)"
    and "required_missing rp (pattern_segments pathPattern) \<noteq> []"
  shows "interpolatePathParams (Some pathPattern) rp =
           Inl (Error (js ''Missing required route parameters: '' @
                  js_join (js '', '') (required_missing rp (pattern_segments pathPattern))))"
  using assms
  by (simp add: interpolatePathParams_def interpolate_segments_def segments_loop_collect
        missing_message_def)

lemma indexOf_first: "c \<notin> set xs \<Longrightarrow> indexOf (xs @ c # ys) c = int (length xs)"
  by (induction xs) (auto simp: Let_def)

lemma indexOf_none: "c \<notin> set xs \<Longrightarrow> indexOf xs c = - 1"
  by (induction xs) (auto simp: Let_def)

lemma chars_distinct:
  "colon \<noteq> qmark" "rparen \<noteq> qmark" "lparen \<noteq> qmark" "colon \<noteq> slash" "lparen \<noteq> rparen"
  by (simp_all add: colon_def qmark_def rparen_def lparen_def slash_def chr16_def)

lemma endsWith_snoc: "endsWith (xs @ [x]) c = (x = c)"
  by (simp add: endsWith_def)

lemma endsWith_snoc2: "endsWith (xs @ [y, x]) c = (x = c)"
  by (simp add: endsWith_def)

lemma parse_constraint:
  assumes "lparen \<notin> set name"
  shows "parse_placeholder (colon # name @ lparen # constraint @ [rparen]) = (False, name)"
proof -
  have "endsWith (colon # name @ lparen # constraint @ [rparen]) qmark = False"
    using endsWith_snoc [of "colon # name @ lparen # constraint" rparen qmark] chars_distinct
    by simp
  then show ?thesis
    using assms by (simp add: parse_placeholder_def Let_def indexOf_first)
qed

lemma parse_constraint_optional:
  assumes "lparen \<notin> set name"
  shows "parse_placeholder (colon # name @ lparen # constraint @ [rparen, qmark]) = (True, name)"
proof -
  have e: "endsWith (colon # name @ lparen # constraint @ [rparen, qmark]) qmark = True"
    using endsWith_snoc2 [of "colon # name @ lparen # constraint" rparen qmark qmark] by simp
  have b: "butlast (name @ lparen # constraint @ [rparen, qmark]) = name @ lparen # constraint @ [rparen]"
    by (simp add: butlast_append)
  show ?thesis
    using assms by (simp add: parse_placeholder_def Let_def e b indexOf_first)
qed

lemma process_placeholder:
  "startsWith seg colon \<Longrightarrow> parse_placeholder seg = (opt, name) \<Longrightarrow>
   process_segment rp st seg = placeholder_result rp st opt name"
  by (cases st) (auto simp: process_segment_def placeholder_result_def Let_def split: option.splits)

text \<open>
  Claim C5. For a placeholder segment with a parenthesized constraint, with or without the
  trailing optionality marker, parsing strips the colon, then the question mark, then
  everything from the first opening parenthesis: the parameter name is what stands before
  the constraint, and the effect of the segment on the loop state is a function of that
  name, the optionality and the bag alone. The constraint text is neither looked up,
  validated nor written to the output.
\<close>

theorem constraint_suffix_discarded:
  assumes "lparen \<notin> set name"
  shows "parse_placeholder (colon # name @ lparen # constraint @ [rparen]) = (False, name) \<and>
         parse_placeholder (colon # name @ lparen # constraint @ [rparen, qmark]) = (True, name) \<and>
         process_segment rp st (colon # name @ lparen # constraint @ [rparen]) =
           placeholder_result rp st False name \<and>
         process_segment rp st (colon # name @ lparen # constraint @ [rparen, qmark]) =
           placeholder_result rp st True name"
  using assms
  by (simp add: parse_constraint parse_constraint_optional process_placeholder startsWith_def)

lemma utf8_encode_Cons: "\<exists>b bs. utf8_encode cp = b # bs"
  by (simp add: utf8_encode_def)

lemma percent_octets_Cons: "percent_octets (b # bs) = chr16 CHR ''%'' # hex_digit (b div 16) # hex_digit (b mod 16) # percent_octets bs"
  by (simp add: percent_octets_def percent_octet_def)

lemma percent_utf8_starts: "\<exists>t. percent_octets (utf8_encode cp) = chr16 CHR ''%'' # t"
  using utf8_encode_Cons [of cp] by (auto simp: percent_octets_Cons)

lemma colon_escaped: "\<not> uriUnescaped colon"
  by (simp add: uriUnescaped_def colon_def js_def chr16_def)

lemma encoded_not_placeholder:
  assumes "encodeURIComponent s = Some e"
  shows "\<not> startsWith e colon"
proof (cases s)
  case Nil
  with assms show ?thesis by (simp add: startsWith_def)
next
  case (Cons c cs)
  have p: "chr16 CHR ''%'' \<noteq> colon" by (simp add: colon_def chr16_def)
  show ?thesis
  proof (cases "uriUnescaped c")
    case True
    with assms Cons colon_escaped show ?thesis by (auto simp: startsWith_def)
  next
    case False
    with assms Cons obtain cp t where "e = percent_octets (utf8_encode cp) @ t"
      by (auto split: if_splits list.splits)
    with percent_utf8_starts [of cp] p show ?thesis by (auto simp: startsWith_def)
  qed
qed

lemma process_literal:
  "\<not> startsWith seg colon \<Longrightarrow> process_segment rp (res, miss) seg = Inr (res @ [seg], miss)"
  by (simp add: process_segment_def)

lemma interpolate_segments_cong:
  assumes "\<And>st. process_segment rp st a = segments_loop rp bs st"
  shows "interpolate_segments rp (pre @ a # post) = interpolate_segments rp (pre @ bs @ post)"
proof -
  have "segments_loop rp (a # post) st = segments_loop rp (bs @ post) st" for st
    using assms [of st] by (simp add: segments_loop_append split: sum.splits)
  then have "segments_loop rp (pre @ a # post) st = segments_loop rp (pre @ bs @ post) st" for st
    by (simp add: segments_loop_append [of rp pre] split: sum.splits)
  then show ?thesis by (simp add: interpolate_segments_def)
qed

text \<open>
  Claim C4. An optional placeholder (leading colon, trailing question mark) whose
  parameter has no value contributes nothing: the interpolation of the segments around it
  is the interpolation of the list without it, errors included. When its parameter has a
  value with percent-encoding \<open>e\<close>, the segment behaves as the literal segment \<open>e\<close>
  (which is never itself read as a placeholder): \<open>e\<close> is appended at its position.
\<close>

theorem optional_placeholder:
  assumes "startsWith seg colon" and "endsWith seg qmark"
    and "v = rp (snd (parse_placeholder seg))"
  shows "(absent v \<longrightarrow>
            interpolate_segments rp (pre @ seg # post) = interpolate_segments rp (pre @ post)) \<and>
         (\<not> absent v \<longrightarrow>
            (\<forall>e. encodeURIComponent (js_String v) = Some e \<longrightarrow>
               \<not> startsWith e colon \<and>
               interpolate_segments rp (pre @ seg # post) = interpolate_segments rp (pre @ e # post)))"
proof (intro conjI impI allI)
  assume a: "absent v"
  have "process_segment rp st seg = segments_loop rp [] st" for st
    using assms a process_placeholder [of seg True "snd (parse_placeholder seg)" rp st]
      fst_parse_placeholder [of seg]
    by (cases "parse_placeholder seg") (simp add: placeholder_result_def)
  from interpolate_segments_cong [of rp seg "[]", OF this]
  show "interpolate_segments rp (pre @ seg # post) = interpolate_segments rp (pre @ post)"
    by simp
next
  fix e
  assume a: "\<not> absent v" and e: "encodeURIComponent (js_String v) = Some e"
  from e show n: "\<not> startsWith e colon" by (rule encoded_not_placeholder)
  have "process_segment rp st seg = segments_loop rp [e] st" for st
    using assms a e n process_placeholder [of seg True "snd (parse_placeholder seg)" rp st]
      fst_parse_placeholder [of seg]
    by (cases "parse_placeholder seg"; cases st) (simp add: placeholder_result_def process_literal)
  from interpolate_segments_cong [of rp seg "[e]", OF this]
  show "interpolate_segments rp (pre @ seg # post) = interpolate_segments rp (pre @ e # post)"
    by simp
qed

text \<open>
  The two examples of C4: \<^verbatim>\<open>interpolate("users/:id?", {})\<close> and
  \<^verbatim>\<open>interpolate("users/:id?", {id: 5})\<close>.
\<close>

theorem optional_placeholder_witness:
  "interpolatePathParams (Some (js ''users/:id?'')) (\<lambda>_. Undefined) = Inr [js ''users''] \<and>
   interpolatePathParams (Some (js ''users/:id?''))
     (\<lambda>n. if n = js ''id'' then Num 5 else Undefined) = Inr [js ''users'', js ''5'']"
proof -
  let ?seg = "js '':id?''"
  let ?rp = "\<lambda>n. if n = js ''id'' then Num 5 else Undefined"
  have segs: "pattern_segments (js ''users/:id?'') = [js ''users''] @ ?seg # []"
    by code_simp
  have ne: "js ''users/:id?'' \<noteq> []" by code_simp
  have s: "startsWith ?seg colon" by code_simp
  have q: "endsWith ?seg qmark" by code_simp
  have a1: "absent ((\<lambda>_. Undefined) (snd (parse_placeholder ?seg)))" by code_simp
  have r1: "interpolate_segments (\<lambda>_. Undefined) ([js ''users''] @ []) = Inr [js ''users'']"
    by code_simp
  have a2: "\<not> absent (?rp (snd (parse_placeholder ?seg)))" by code_simp
  have e2: "encodeURIComponent (js_String (?rp (snd (parse_placeholder ?seg)))) = Some (js ''5'')"
    by code_simp
  have r2: "interpolate_segments ?rp ([js ''users''] @ js ''5'' # []) = Inr [js ''users'', js ''5'']"
    by code_simp
  from optional_placeholder [OF s q refl, of "\<lambda>_. Undefined" "[js ''users'']" "[]"] a1 r1
  have 1: "interpolate_segments (\<lambda>_. Undefined) ([js ''users''] @ ?seg # []) = Inr [js ''users'']"
    by simp
  from optional_placeholder [OF s q refl, of ?rp "[js ''users'']" "[]"] a2 e2 r2
  have 2: "interpolate_segments ?rp ([js ''users''] @ ?seg # []) = Inr [js ''users'', js ''5'']"
    by simp
  from 1 2 segs ne show ?thesis
    by (simp add: interpolatePathParams_def)
qed

text \<open>
  The hypotheses of C3 hold for the pattern \<^verbatim>\<open>users/:id/posts/:postId\<close> and the empty
  bag; both names are listed.
\<close>

theorem interpolate_missing_witness:
  "interpolatePathParams (Some (js ''users/:id/posts/:postId'')) (\<lambda>_. Undefined) =
     Inl (Error (js ''Missing required route parameters: id, postId''))"
proof -
  let ?p = "js ''users/:id/posts/:postId''"
  have a: "?p \<noteq> []" by code_simp
  have b: "list_all (value_encodes (\<lambda>_. Undefined)) (pattern_segments ?p)" by code_simp
  have c: "required_missing (\<lambda>_. Undefined) (pattern_segments ?p) \<noteq> []" by code_simp
  have d: "js ''Missing required route parameters: '' @
             js_join (js '', '') (required_missing (\<lambda>_. Undefined) (pattern_segments ?p)) =
           js ''Missing required route parameters: id, postId''"
    by code_simp
  from interpolate_missing [OF a b c] d show ?thesis by simp
qed

text \<open>
  Claim C3 as stated fails: two different patterns give the same message, which
  therefore identifies no route name or pattern; and a required placeholder without a
  value does not give the missing-parameters error when a later value has an unpaired
  surrogate (\<^verbatim>\<open>encodeURIComponent\<close> raises \<^verbatim>\<open>URIError\<close> first).
\<close>

theorem missing_message_counterexample:
  "interpolatePathParams (Some (js ''users/:id'')) (\<lambda>_. Undefined) =
     Inl (Error (js ''Missing required route parameters: id'')) \<and>
   interpolatePathParams (Some (js ''posts/:id'')) (\<lambda>_. Undefined) =
     Inl (Error (js ''Missing required route parameters: id'')) \<and>
   interpolatePathParams (Some (js ''a/:x/:y''))
     (\<lambda>n. if n = js ''y'' then Str [0xD800] else Undefined) = Inl URIError"
  by code_simp

text \<open>
  The example of C5: \<^verbatim>\<open>interpolate("users/:id(\d+)", {id: 42})\<close>; the code unit
  \<open>0x5C\<close> is the backslash.
\<close>

theorem constraint_suffix_discarded_witness:
  "interpolatePathParams (Some (js ''users/:id('' @ [0x5C] @ js ''d+)''))
     (\<lambda>n. if n = js ''id'' then Num 42 else Undefined) = Inr [js ''users'', js ''42'']"
proof -
  let ?rp = "\<lambda>n. if n = js ''id'' then Num 42 else Undefined"
  let ?seg = "colon # js ''id'' @ lparen # ([0x5C] @ js ''d+'') @ [rparen]"
  have n: "lparen \<notin> set (js ''id'')" by code_simp
  have segs: "pattern_segments (js ''users/:id('' @ [0x5C] @ js ''d+)'') = [js ''users'', ?seg]"
    by code_simp
  have ne: "js ''users/:id('' @ [0x5C] @ js ''d+)'' \<noteq> []" by code_simp
  have l: "process_segment ?rp ([], []) (js ''users'') = Inr ([js ''users''], [])" by code_simp
  have r: "placeholder_result ?rp ([js ''users''], []) False (js ''id'') = Inr ([js ''users'', js ''42''], [])"
    by code_simp
  from constraint_suffix_discarded [OF n, of "[0x5C] @ js ''d+''" ?rp "([js ''users''], [])"] r
  have "process_segment ?rp ([js ''users''], []) ?seg = Inr ([js ''users'', js ''42''], [])"
    by simp
  with l have "segments_loop ?rp [js ''users'', ?seg] ([], []) = Inr ([js ''users'', js ''42''], [])"
    by simp
  with segs ne show ?thesis
    by (simp add: interpolatePathParams_def interpolate_segments_def)
qed

lemma js_split_join: "js_join [sep] (js_split sep s) = s"
proof (induction s)
  case Nil
  show ?case by simp
next
  case (Cons c s)
  obtain p ps where ps: "js_split sep s = p # ps"
    using js_split_nonempty [of sep s] by (cases "js_split sep s") auto
  with Cons show ?case by (cases ps) auto
qed

lemma js_split_pieces: "list_all (\<lambda>p. sep \<notin> set p) (js_split sep s)"
  by (induction s) (auto split: list.splits)

lemma all_literal_loop:
  "list_all (\<lambda>s. \<not> startsWith s colon) segs \<Longrightarrow>
   segments_loop rp segs (res, miss) = Inr (res @ segs, miss)"
  by (induction segs arbitrary: res) (simp_all add: process_literal)

lemma optional_absent_loop:
  "list_all (optional_absent rp) segs \<Longrightarrow> segments_loop rp segs st = Inr st"
proof (induction segs)
  case Nil
  show ?case by simp
next
  case (Cons s segs)
  then have "process_segment rp st s = Inr st"
    using process_placeholder [of s True "snd (parse_placeholder s)" rp st]
      fst_parse_placeholder [of s]
    by (cases "parse_placeholder s") (simp add: optional_absent_def placeholder_result_def)
  with Cons show ?case by simp
qed

text \<open>
  Claim C6. An absent or empty pattern gives the one-element sequence \<^verbatim>\<open>["/"]\<close>; a
  non-empty pattern all of whose segments are optional placeholders without a value gives
  the empty sequence, a different result; a non-empty pattern without placeholders gives
  its non-empty pieces unchanged, where the pieces are those of the split at the slashes:
  joined with slashes they are the pattern again, and none of them holds a slash.
\<close>

theorem root_versus_empty:
  "interpolatePathParams None rp = Inr [js ''/''] \<and>
   interpolatePathParams (Some []) rp = Inr [js ''/''] \<and>
   (p \<noteq> [] \<longrightarrow> list_all (optional_absent rp) (pattern_segments p) \<longrightarrow>
      interpolatePathParams (Some p) rp = Inr [] \<and>
      interpolatePathParams (Some p) rp \<noteq> interpolatePathParams (Some []) rp) \<and>
   (p \<noteq> [] \<longrightarrow> list_all (\<lambda>s. \<not> startsWith s colon) (pattern_segments p) \<longrightarrow>
      interpolatePathParams (Some p) rp = Inr (filter (\<lambda>s. s \<noteq> []) (js_split slash p))) \<and>
   js_join [slash] (js_split slash p) = p \<and>
   list_all (\<lambda>s. slash \<notin> set s) (js_split slash p)"
  by (auto simp: interpolatePathParams_def interpolate_segments_def optional_absent_loop
        all_literal_loop pattern_segments_def js_split_join js_split_pieces)

text \<open>
  The hypotheses of C6 hold for the patterns \<^verbatim>\<open>:id?\<close> (with the empty bag) and
  \<^verbatim>\<open>admin//users/settings/\<close>.
\<close>

theorem root_versus_empty_witness:
  "interpolatePathParams (Some (js '':id?'')) (\<lambda>_. Undefined) = Inr [] \<and>
   interpolatePathParams (Some (js '':id?'')) (\<lambda>_. Undefined) \<noteq>
     interpolatePathParams (Some []) (\<lambda>_. Undefined) \<and>
   interpolatePathParams (Some (js ''admin//users/settings/'')) (\<lambda>_. Undefined) =
     Inr [js ''admin'', js ''users'', js ''settings'']"
proof -
  let ?rp = "\<lambda>_. Undefined"
  have a: "js '':id?'' \<noteq> []" by code_simp
  have b: "list_all (optional_absent ?rp) (pattern_segments (js '':id?''))" by code_simp
  have c: "js ''admin//users/settings/'' \<noteq> []" by code_simp
  have d: "list_all (\<lambda>s. \<not> startsWith s colon) (pattern_segments (js ''admin//users/settings/''))"
    by code_simp
  have e: "filter (\<lambda>s. s \<noteq> []) (js_split slash (js ''admin//users/settings/'')) =
             [js ''admin'', js ''users'', js ''settings'']"
    by code_simp
  from root_versus_empty [of ?rp "js '':id?''"] a b
  have 1: "interpolatePathParams (Some (js '':id?'')) ?rp = Inr [] \<and>
           interpolatePathParams (Some (js '':id?'')) ?rp \<noteq> interpolatePathParams (Some []) ?rp"
    by blast
  from root_versus_empty [of ?rp "js ''admin//users/settings/''"] c d e
  have 2: "interpolatePathParams (Some (js ''admin//users/settings/'')) ?rp =
             Inr [js ''admin'', js ''users'', js ''settings'']"
    by simp
  from 1 2 show ?thesis by blast
qed

section \<open>The round trip of the percent-encoding\<close>

lemma nibble_cases: "n < 16 \<Longrightarrow> n \<in> {0, 1, 2, 3, 4, 5, 6, 7, 8, 9, 10, 11, 12, 13, 14, 15 :: nat}"
  by simp arith

lemma unat_small: "k < 0x10000 \<Longrightarrow> unat (of_nat k :: code_unit) = k"
  by (simp add: unat_of_nat)

lemma unat_hex_digit:
  assumes "n < 16"
  shows "unat (hex_digit n) = (if n < 10 then 48 + n else 55 + n)"
proof -
  from assms have "48 + n < 0x10000" and "55 + n < 0x10000" by simp_all
  then show ?thesis
    unfolding hex_digit_def by (simp only: unat_small split: if_splits) simp
qed

lemma hex_value_digit: "n < 16 \<Longrightarrow> hex_value (hex_digit n) = Some n"
  by (simp add: hex_value_def word_le_nat_alt unat_hex_digit)

lemma parse_hex_octet_digits:
  assumes "b < 256"
  shows "parse_hex_octet (hex_digit (b div 16) # hex_digit (b mod 16) # rest) = Some (b, rest)"
proof -
  from assms have "b div 16 < 16" by (simp add: less_mult_imp_div_less)
  moreover have "b mod 16 < 16" by simp
  ultimately show ?thesis by (simp add: hex_value_digit)
qed

lemma percent_octets_Nil: "percent_octets [] = []"
  by (simp add: percent_octets_def)

lemma take_escapes_octets:
  "list_all (\<lambda>b. b < 256) bs \<Longrightarrow> take_escapes (length bs) (percent_octets bs @ t) = Some (bs, t)"
  by (induction bs)
     (simp_all add: percent_octets_Cons percent_octets_Nil parse_hex_octet_digits
        del: parse_hex_octet.simps)

lemma div_4096: "(n::nat) div 4096 = n div 64 div 64"
  by (simp add: div_mult2_eq [symmetric])

lemma decompose3: "((n::nat) div 4096 * 64 + n div 64 mod 64) * 64 + n mod 64 = n"
proof -
  have "n div 64 div 64 * 64 + n div 64 mod 64 = n div 64" by (rule div_mult_mod_eq)
  then show ?thesis by (simp add: div_4096)
qed

lemma decompose4:
  "(((n::nat) div 262144 * 64 + n div 4096 mod 64) * 64 + n div 64 mod 64) * 64 + n mod 64 = n"
proof -
  have a: "n div 262144 = n div 4096 div 64" by (simp add: div_mult2_eq [symmetric])
  have "n div 4096 div 64 * 64 + n div 4096 mod 64 = n div 4096" by (rule div_mult_mod_eq)
  then have "(n div 262144 * 64 + n div 4096 mod 64) = n div 4096" by (simp add: a)
  then show ?thesis using decompose3 [of n] by simp
qed

lemma utf8_two:
  fixes a b :: nat
  assumes "b < 64" and "cp = a * 64 + b" and "0x80 \<le> cp" and "cp < 0x800"
  shows "utf8_decode [0xC0 + a, 0x80 + b] = Some cp \<and> leading_ones (0xC0 + a) = 2 \<and>
         0xC0 + a < 256 \<and> 0x80 + b < 256"
  using assms by (auto simp: continuation_def leading_ones_def)

lemma utf8_three:
  fixes a b c :: nat
  assumes "b < 64" and "c < 64" and "cp = (a * 64 + b) * 64 + c" and "0x800 \<le> cp"
    and "cp < 0x10000" and "\<not> (0xD800 \<le> cp \<and> cp \<le> 0xDFFF)"
  shows "utf8_decode [0xE0 + a, 0x80 + b, 0x80 + c] = Some cp \<and> leading_ones (0xE0 + a) = 3 \<and>
         0xE0 + a < 256 \<and> 0x80 + b < 256 \<and> 0x80 + c < 256"
proof -
  from assms have a: "a \<le> 15" and a0: "a = 0 \<longrightarrow> 32 \<le> b" and a13: "a = 13 \<longrightarrow> b \<le> 31"
    by auto
  then have "valid_lead3 (0xE0 + a) (0x80 + b)"
    using assms(1) by (auto simp: valid_lead3_def continuation_def)
  with a assms show ?thesis by (simp add: continuation_def leading_ones_def)
qed

lemma utf8_four:
  fixes a b c d :: nat
  assumes "b < 64" and "c < 64" and "d < 64" and "cp = ((a * 64 + b) * 64 + c) * 64 + d"
    and "0x10000 \<le> cp" and "cp < 0x110000"
  shows "utf8_decode [0xF0 + a, 0x80 + b, 0x80 + c, 0x80 + d] = Some cp \<and>
         leading_ones (0xF0 + a) = 4 \<and>
         0xF0 + a < 256 \<and> 0x80 + b < 256 \<and> 0x80 + c < 256 \<and> 0x80 + d < 256"
proof -
  from assms have a: "a \<le> 4" and a0: "a = 0 \<longrightarrow> 16 \<le> b" and a4: "a = 4 \<longrightarrow> b \<le> 15"
    by auto
  then have "valid_lead4 (0xF0 + a) (0x80 + b)"
    using assms(1) by (auto simp: valid_lead4_def continuation_def)
  with a assms show ?thesis by (simp add: continuation_def leading_ones_def)
qed

lemma utf8_decode_encode:
  assumes "scalar_value cp" and "0x80 \<le> cp"
  shows "\<exists>b0 bs. utf8_encode cp = b0 # bs \<and> utf8_decode (b0 # bs) = Some cp \<and>
           leading_ones b0 = Suc (length bs) \<and> list_all (\<lambda>b. b < 256) (b0 # bs)"
proof -
  consider "cp < 0x800" | "0x800 \<le> cp" "cp < 0x10000" | "0x10000 \<le> cp"
    by linarith
  then show ?thesis
  proof cases
    case 1
    have "cp = cp div 64 * 64 + cp mod 64" by simp
    from utf8_two [OF _ this, of] assms 1 show ?thesis
      by (simp add: utf8_encode_def)
  next
    case 2
    have "cp = (cp div 4096 * 64 + cp div 64 mod 64) * 64 + cp mod 64"
      by (simp only: decompose3)
    from utf8_three [OF _ _ this] assms 2 show ?thesis
      by (simp add: utf8_encode_def scalar_value_def)
  next
    case 3
    have "cp = ((cp div 262144 * 64 + cp div 4096 mod 64) * 64 + cp div 64 mod 64) * 64 + cp mod 64"
      by (simp only: decompose4)
    from utf8_four [OF _ _ _ this] assms 3 show ?thesis
      by (simp add: utf8_encode_def scalar_value_def)
  qed
qed

lemma percent_not_unescaped: "\<not> uriUnescaped (chr16 CHR ''%'')"
  by (simp add: uriUnescaped_def js_def chr16_def)

lemma append_single: "(@) [x] = (#) x"
  by (simp add: fun_eq_iff)

lemma decode_percent_utf8:
  assumes "scalar_value cp"
  shows "decodeURIComponent (percent_octets (utf8_encode cp) @ t) =
           map_option ((@) (utf16_encode cp)) (decodeURIComponent t)"
proof (cases "cp < 0x80")
  case True
  then have "cp < 256" by simp
  from parse_hex_octet_digits [OF this] True show ?thesis
    by (simp add: utf8_encode_def percent_octets_Cons percent_octets_Nil leading_ones_def
          utf16_encode_def append_single del: parse_hex_octet.simps)
next
  case False
  with utf8_decode_encode [OF assms] obtain b0 bs where
    e: "utf8_encode cp = b0 # bs" and d: "utf8_decode (b0 # bs) = Some cp" and
    n: "leading_ones b0 = Suc (length bs)" and b: "b0 < 256" "list_all (\<lambda>b. b < 256) bs"
    by auto
  from d have "bs \<noteq> []" by (cases bs) auto
  with n have n': "leading_ones b0 \<noteq> 0" "leading_ones b0 \<noteq> 1" by (cases bs; simp)+
  from d n have n4: "\<not> 4 < leading_ones b0"
    by (cases "(b0 # bs)" rule: utf8_decode.cases) auto
  have p: "parse_hex_octet (hex_digit (b0 div 16) # hex_digit (b0 mod 16) # percent_octets bs @ t) =
             Some (b0, percent_octets bs @ t)"
    using b(1) by (rule parse_hex_octet_digits)
  have k: "take_escapes (leading_ones b0 - 1) (percent_octets bs @ t) = Some (bs, t)"
    using take_escapes_octets [OF b(2)] n by simp
  show ?thesis
    unfolding e percent_octets_Cons
    using p k d n' n4
    by (simp add: Let_def del: parse_hex_octet.simps utf8_decode.simps)
qed

lemma is_high_surrogate_unat: "is_high_surrogate c = (0xD800 \<le> unat c \<and> unat c \<le> 0xDBFF)"
  by (simp add: is_high_surrogate_def word_le_nat_alt)

lemma is_low_surrogate_unat: "is_low_surrogate c = (0xDC00 \<le> unat c \<and> unat c \<le> 0xDFFF)"
  by (simp add: is_low_surrogate_def word_le_nat_alt)

lemma unat_code_unit: "unat (c :: code_unit) < 0x10000"
  using unsigned_less [of c, where ?'a = nat] by simp

lemma bmp_scalar:
  assumes "\<not> is_high_surrogate c" and "\<not> is_low_surrogate c"
  shows "scalar_value (unat c) \<and> utf16_encode (unat c) = [c]"
  using assms unat_code_unit [of c]
  by (auto simp: scalar_value_def utf16_encode_def is_high_surrogate_unat is_low_surrogate_unat)

lemma pair_scalar:
  assumes "is_high_surrogate c" and "is_low_surrogate d"
  shows "scalar_value (surrogate_pair c d) \<and> utf16_encode (surrogate_pair c d) = [c, d]"
proof -
  define h where "h = unat c - 0xD800"
  define l where "l = unat d - 0xDC00"
  from assms have h: "h < 0x400" "unat c = 0xD800 + h" and l: "l < 0x400" "unat d = 0xDC00 + l"
    by (auto simp: h_def l_def is_high_surrogate_unat is_low_surrogate_unat)
  have v: "surrogate_pair c d = 0x10000 + (h * 0x400 + l)"
    by (simp add: surrogate_pair_def h_def l_def)
  have "(h * 0x400 + l) div 0x400 = h" "(h * 0x400 + l) mod 0x400 = l"
    using l(1) by simp_all
  then have "utf16_encode (surrogate_pair c d) = [of_nat (unat c), of_nat (unat d)]"
    unfolding v utf16_encode_def using h(2) l(2) by simp
  moreover have "scalar_value (surrogate_pair c d)"
    unfolding v scalar_value_def using h(1) l(1) by auto
  ultimately show ?thesis by simp
qed

lemma decode_encode:
  "encodeURIComponent s = Some e \<Longrightarrow> decodeURIComponent e = Some s"
proof (induction s arbitrary: e rule: encodeURIComponent.induct)
  case 1
  then show ?case by simp
next
  case (2 c cs)
  show ?case
  proof (cases "uriUnescaped c")
    case True
    with "2.prems" obtain e' where e: "e = c # e'" "encodeURIComponent cs = Some e'" by auto
    from True percent_not_unescaped have "c \<noteq> chr16 CHR ''%''" by auto
    with "2.IH"(1) [OF True e(2)] e(1) show ?thesis by simp
  next
    case False
    note u = this
    show ?thesis
    proof (cases "is_high_surrogate c")
      case True
      with u "2.prems" have nl: "\<not> is_low_surrogate c" by (auto split: if_splits)
      from u nl True "2.prems" obtain d ds e' where
        cs: "cs = d # ds" and d: "is_low_surrogate d" and
        e: "e = percent_octets (utf8_encode (surrogate_pair c d)) @ e'" "encodeURIComponent ds = Some e'"
        by (auto split: list.splits if_splits)
      from "2.IH"(2) [OF u nl True cs d e(2)] pair_scalar [OF True d] e(1) cs
      show ?thesis by (simp add: decode_percent_utf8)
    next
      case False
      with u "2.prems" have nl: "\<not> is_low_surrogate c" by (auto split: if_splits)
      from u nl False "2.prems" obtain e' where
        e: "e = percent_octets (utf8_encode (unat c)) @ e'" "encodeURIComponent cs = Some e'"
        by auto
      from "2.IH"(3) [OF u nl False e(2)] bmp_scalar [OF False nl] e(1)
      show ?thesis by (simp add: decode_percent_utf8)
    qed
  qed
qed

lemma unescaped_ascii: "uriUnescaped c \<Longrightarrow> c < 0x80"
  by (auto simp: uriUnescaped_def js_def chr16_def)

lemma unescaped_not_surrogate:
  "uriUnescaped c \<Longrightarrow> \<not> is_high_surrogate c \<and> \<not> is_low_surrogate c"
  by (drule unescaped_ascii)
     (auto simp: is_high_surrogate_unat is_low_surrogate_unat word_less_nat_alt)

lemma surrogates_disjoint: "is_high_surrogate c \<Longrightarrow> \<not> is_low_surrogate c"
  by (auto simp: is_high_surrogate_unat is_low_surrogate_unat)

lemma well_formed_encodes: "well_formed s \<Longrightarrow> \<exists>e. encodeURIComponent s = Some e"
  by (induction s rule: well_formed.induct)
     (auto split: if_splits dest: unescaped_not_surrogate surrogates_disjoint)

lemma hex_digit_unescaped: "n < 16 \<Longrightarrow> uriUnescaped (hex_digit n)"
  by (drule nibble_cases)
     (elim insertE emptyE; simp add: uriUnescaped_def hex_digit_def js_def chr16_def)

lemma percent_octets_characters:
  "list_all (\<lambda>b. b < 256) bs \<Longrightarrow> list_all uri_character (percent_octets bs)"
proof (induction bs)
  case Nil
  show ?case by (simp add: percent_octets_Nil)
next
  case (Cons b bs)
  then have "b div 16 < 16" by (simp add: less_mult_imp_div_less)
  with Cons show ?case
    by (simp add: percent_octets_Cons uri_character_def hex_digit_unescaped)
qed

lemma utf8_encode_octets: "scalar_value cp \<Longrightarrow> list_all (\<lambda>b. b < 256) (utf8_encode cp)"
proof (cases "cp < 0x80")
  case True
  then show ?thesis by (simp add: utf8_encode_def)
next
  case False
  assume "scalar_value cp"
  from utf8_decode_encode [OF this] False show ?thesis by auto
qed

lemma encoded_characters:
  "encodeURIComponent s = Some e \<Longrightarrow> list_all uri_character e"
proof (induction s arbitrary: e rule: encodeURIComponent.induct)
  case 1
  then show ?case by simp
next
  case (2 c cs)
  show ?case
  proof (cases "uriUnescaped c")
    case True
    with "2.prems" obtain e' where e: "e = c # e'" "encodeURIComponent cs = Some e'" by auto
    with "2.IH"(1) [OF True e(2)] True show ?thesis by (simp add: uri_character_def)
  next
    case False
    note u = this
    show ?thesis
    proof (cases "is_high_surrogate c")
      case True
      with u "2.prems" have nl: "\<not> is_low_surrogate c" by (auto split: if_splits)
      from u nl True "2.prems" obtain d ds e' where
        cs: "cs = d # ds" and d: "is_low_surrogate d" and
        e: "e = percent_octets (utf8_encode (surrogate_pair c d)) @ e'" "encodeURIComponent ds = Some e'"
        by (auto split: list.splits if_splits)
      from pair_scalar [OF True d] have "scalar_value (surrogate_pair c d)" by simp
      from percent_octets_characters [OF utf8_encode_octets [OF this]]
        "2.IH"(2) [OF u nl True cs d e(2)] e(1)
      show ?thesis by simp
    next
      case False
      with u "2.prems" have nl: "\<not> is_low_surrogate c" by (auto split: if_splits)
      from u nl False "2.prems" obtain e' where
        e: "e = percent_octets (utf8_encode (unat c)) @ e'" "encodeURIComponent cs = Some e'"
        by auto
      from bmp_scalar [OF False nl] have "scalar_value (unat c)" by simp
      from percent_octets_characters [OF utf8_encode_octets [OF this]]
        "2.IH"(3) [OF u nl False e(2)] e(1)
      show ?thesis by simp
    qed
  qed
qed

text \<open>
  Claim C7, as amended. For a placeholder whose parameter value is present (neither
  \<^verbatim>\<open>undefined\<close> nor \<^verbatim>\<open>null\<close>) and whose string form has no unpaired surrogate, the
  string form has a percent-encoding, the loop appends it to the result, it consists of
  unescaped characters and percent escapes only, and \<^verbatim>\<open>decodeURIComponent\<close> maps it back
  to the string form.
\<close>

theorem encoded_value_round_trips:
  assumes "startsWith segment colon"
    and "v = routeParams (snd (parse_placeholder segment))"
    and "\<not> absent v"
    and "well_formed (js_String v)"
  shows "\<exists>encoded.
           encodeURIComponent (js_String v) = Some encoded \<and>
           process_segment routeParams (result, missingParams) segment =
             Inr (result @ [encoded], missingParams) \<and>
           list_all uri_character encoded \<and>
           decodeURIComponent encoded = Some (js_String v)"
proof -
  from well_formed_encodes [OF assms(4)] obtain encoded where
    e: "encodeURIComponent (js_String v) = Some encoded" by blast
  have "process_segment routeParams (result, missingParams) segment =
          Inr (result @ [encoded], missingParams)"
    using assms(1,2,3) e
    by (cases "parse_placeholder segment") (simp add: process_segment_def Let_def)
  with e decode_encode [OF e] encoded_characters [OF e] show ?thesis by blast
qed

text \<open>
  The example of C7: \<^verbatim>\<open>interpolate("search/:query", {query: "hello world & stuff"})\<close>.
\<close>

theorem encoded_value_round_trips_witness:
  "interpolatePathParams (Some (js ''search/:query''))
     (\<lambda>n. if n = js ''query'' then Str (js ''hello world & stuff'') else Undefined) =
     Inr [js ''search'', js ''hello%20world%20%26%20stuff''] \<and>
   decodeURIComponent (js ''hello%20world%20%26%20stuff'') = Some (js ''hello world & stuff'')"
proof -
  let ?rp = "\<lambda>n. if n = js ''query'' then Str (js ''hello world & stuff'') else Undefined"
  let ?seg = "js '':query''"
  let ?v = "Str (js ''hello world & stuff'')"
  have s: "startsWith ?seg colon" by code_simp
  have v: "?v = ?rp (snd (parse_placeholder ?seg))" by code_simp
  have a: "\<not> absent ?v" by code_simp
  have w: "well_formed (js_String ?v)" by code_simp
  have enc: "encodeURIComponent (js_String ?v) = Some (js ''hello%20world%20%26%20stuff'')"
    by code_simp
  have segs: "pattern_segments (js ''search/:query'') = [js ''search'', ?seg]" by code_simp
  have ne: "js ''search/:query'' \<noteq> []" by code_simp
  have l: "process_segment ?rp ([], []) (js ''search'') = Inr ([js ''search''], [])" by code_simp
  from encoded_value_round_trips
    [where routeParams = ?rp and segment = ?seg and v = ?v and result = "[js ''search'']"
       and missingParams = "[]"] s v a w enc
  have p: "process_segment ?rp ([js ''search''], []) ?seg =
             Inr ([js ''search''] @ [js ''hello%20world%20%26%20stuff''], [])"
    and d: "decodeURIComponent (js ''hello%20world%20%26%20stuff'') = Some (js_String ?v)"
    by auto
  from l p have "segments_loop ?rp [js ''search'', ?seg] ([], []) =
      Inr ([js ''search'', js ''hello%20world%20%26%20stuff''], [])"
    by simp
  with segs ne d show ?thesis
    by (simp add: interpolatePathParams_def interpolate_segments_def)
qed

text \<open>
  Claim C7 as stated fails for a present value with an unpaired surrogate: nothing is
  appended, \<^verbatim>\<open>encodeURIComponent\<close> raises \<^verbatim>\<open>URIError\<close> and so does the interpolation.
\<close>

theorem unpaired_surrogate_counterexample:
  "\<not> absent (Str [0xD800]) \<and>
   interpolatePathParams (Some (js ''search/:query''))
     (\<lambda>n. if n = js ''query'' then Str [0xD800] else Undefined) = Inl URIError"
  by code_simp

section \<open>The suspended traversal computes what the sequential functions compute\<close>

declare drive.simps [simp del]
declare processRoute.simps [simp del]
declare processLazyRoute.simps [simp del]

lemma drive_cong: "run_segment A st = run_segment B st' \<Longrightarrow> drive A st = drive B st'"
  by (simp add: drive.simps [of A] drive.simps [of B])

lemma drive_Nil: "drive [] st = (None, st)"
  by (simp add: drive.simps [of "[]"])

lemma drive_Await: "drive (Await # K) st = drive K st"
  by (simp add: drive.simps [of "Await # K"])

lemma drive_EndLazy: "drive (EndLazy fp # K) st = drive K st"
  by (rule drive_cong) simp

lemma drive_EndRoute: "drive (EndRoute r # K) st = drive K st"
  by (rule drive_cong) simp

lemma drive_Routes_Nil: "drive (Routes [] p # K) st = drive K st"
  by (rule drive_cong) simp

lemma drive_Routes_Cons:
  "drive (Routes (r # rs) p # K) st =
     (case register_if_named r (joinPaths p (route_path r)) (fst st) of
        Inl e \<Rightarrow> (Some (unwind (catch_buildRouteMap r e) K), st)
      | Inr m \<Rightarrow>
          drive (Children r (joinPaths p (route_path r)) # Lazy r (joinPaths p (route_path r)) #
                 Await # EndRoute r # Routes rs p # K) (m, snd st))"
proof (cases "register_if_named r (joinPaths p (route_path r)) (fst st)")
  case (Inl e)
  then show ?thesis by (simp add: drive.simps [of "Routes (r # rs) p # K"] Let_def)
next
  case (Inr m)
  have "drive (Routes (r # rs) p # K) st =
          drive (Children r (joinPaths p (route_path r)) # Lazy r (joinPaths p (route_path r)) #
                 Await # EndRoute r # Routes rs p # K) (m, snd st)"
    by (rule drive_cong) (simp add: Inr Let_def del: run_segment.simps(7))
  with Inr show ?thesis by simp
qed

lemma drive_Children:
  "drive (Children r fp # K) st =
     (case route_children r of None \<Rightarrow> drive K st | Some cs \<Rightarrow> drive (Routes cs fp # Await # K) st)"
proof (cases "route_children r")
  case None
  have "drive (Children r fp # K) st = drive K st" by (rule drive_cong) (simp add: None)
  with None show ?thesis by simp
next
  case (Some cs)
  have "drive (Children r fp # K) st = drive (Routes cs fp # Await # K) st"
    by (rule drive_cong) (simp add: Some del: run_segment.simps(5,6))
  with Some show ?thesis by simp
qed

lemma drive_Lazy:
  "drive (Lazy r fp # K) st =
     (case route_loadChildren r of
        None \<Rightarrow> drive K st
      | Some l \<Rightarrow> drive (Loaded l fp # EndLazy fp # Await # K) (fst st, snd st @ [fp]))"
proof (cases "route_loadChildren r")
  case None
  have "drive (Lazy r fp # K) st = drive K st" by (rule drive_cong) (simp add: None)
  with None show ?thesis by simp
next
  case (Some l)
  then show ?thesis by (simp add: drive.simps [of "Lazy r fp # K"])
qed

lemma drive_Loaded:
  "drive (Loaded l fp # K) st =
     (case l of
        Rejects msg \<Rightarrow> (Some (unwind (Error msg) K), st)
      | Resolves ld \<Rightarrow>
          if length (extractRoutesFromLazyModule ld) > 0
          then drive (Routes (extractRoutesFromLazyModule ld) fp # Await # K) st
          else drive K st)"
proof (cases l)
  case (Rejects msg)
  then show ?thesis by (simp add: drive.simps [of "Loaded (Rejects msg) fp # K"])
next
  case (Resolves ld)
  show ?thesis
  proof (cases "extractRoutesFromLazyModule ld")
    case Nil
    have "drive (Loaded l fp # K) st = drive K st"
      by (rule drive_cong) (simp add: Resolves Nil Let_def)
    with Resolves Nil show ?thesis by simp
  next
    case (Cons c cs)
    have "drive (Loaded l fp # K) st = drive (Routes (c # cs) fp # Await # K) st"
      by (rule drive_cong) (simp add: Resolves Cons Let_def del: run_segment.simps(5,6))
    with Resolves Cons show ?thesis by simp
  qed
qed

lemmas drive_frames =
  drive_Nil drive_Await drive_EndLazy drive_EndRoute drive_Routes_Nil drive_Routes_Cons
  drive_Children drive_Lazy drive_Loaded

lemma then_drive_simps:
  "then_drive (Some e, st') K = (Some (unwind e K), st')"
  "then_drive (None, st') K = drive K st'"
  by (simp_all add: then_drive_def)

lemma then_drive_Await: "then_drive r (Await # K) = then_drive r K"
  by (cases r; cases "fst r") (auto simp: then_drive_def drive_Await)

lemma unwind_skip:
  "unwind e (Await # K) = unwind e K"
  "unwind e (Lazy r fp # K) = unwind e K"
  "unwind e (Routes rs p # K) = unwind e K"
  by simp_all

lemma drive_big_step:
  "drive (Routes rs p # K) st = then_drive (buildRouteMap rs p st) K"
  "register_if_named r (joinPaths p' (route_path r)) (fst st1) = Inr m1 \<Longrightarrow>
   drive (Children r (joinPaths p' (route_path r)) # Lazy r (joinPaths p' (route_path r)) # K1)
      (m1, snd st1) = then_drive (processRoute r p' st1) K1"
  "drive (Loaded l fp # EndLazy fp # K2) (fst st2, snd st2 @ [fp]) =
     then_drive (processLazyRoute l fp st2) K2"
proof (induction rs p st and r p' st1 and l fp st2 arbitrary: K and K1 m1 and K2
    rule: buildRouteMap_processRoute_processLazyRoute.induct)
  case (1 parentPath st)
  show ?case by (simp add: drive_Routes_Nil then_drive_def)
next
  case (2 route routes parentPath st)
  let ?fp = "joinPaths parentPath (route_path route)"
  show ?case
  proof (cases "register_if_named route ?fp (fst st)")
    case (Inl e)
    then have "processRoute route parentPath st = (Some e, st)"
      by (simp add: processRoute.simps Let_def)
    with Inl show ?thesis
      by (simp add: drive_Routes_Cons then_drive_def)
  next
    case (Inr m)
    obtain res st' where pr: "processRoute route parentPath st = (res, st')"
      by (cases "processRoute route parentPath st")
    let ?K' = "Await # EndRoute route # Routes routes parentPath # K"
    have d: "drive (Routes (route # routes) parentPath # K) st = then_drive (res, st') ?K'"
      using "2.IH"(1) [OF Inr, of ?K'] Inr pr by (simp add: drive_Routes_Cons)
    show ?thesis
    proof (cases res)
      case None
      from "2.IH"(2) [of None st' K] pr None
      have "drive (Routes routes parentPath # K) st' = then_drive (buildRouteMap routes parentPath st') K"
        by simp
      with d pr None show ?thesis
        by (simp add: then_drive_def drive_Await drive_EndRoute)
    next
      case (Some e)
      with d pr show ?thesis by (simp add: then_drive_def)
    qed
  qed
next
  case (3 route parentPath st)
  let ?fp = "joinPaths parentPath (route_path route)"
  define cres where "cres = (case route_children route of
      None \<Rightarrow> (None, (m1, snd st)) | Some cs \<Rightarrow> buildRouteMap cs ?fp (m1, snd st))"
  note reg = "3.prems"
  have a: "drive (Children route ?fp # Lazy route ?fp # K1) (m1, snd st) =
             then_drive cres (Lazy route ?fp # K1)"
  proof (cases "route_children route")
    case None
    then show ?thesis by (simp add: drive_Children cres_def then_drive_def)
  next
    case (Some cs)
    from "3.IH"(1) [OF refl reg Some, of "Await # Lazy route ?fp # K1"] Some show ?thesis
      by (simp add: drive_Children cres_def then_drive_Await)
  qed
  obtain cr st' where c: "cres = (cr, st')" by (cases cres)
  have pr: "processRoute route parentPath st =
      (case cres of (Some e, s') \<Rightarrow> (Some e, s')
       | (None, s') \<Rightarrow> (case route_loadChildren route of None \<Rightarrow> (None, s')
            | Some l \<Rightarrow> processLazyRoute l ?fp s'))"
    using reg by (simp add: processRoute.simps Let_def cres_def)
  show ?case
  proof (cases cr)
    case (Some e)
    with a c pr show ?thesis by (simp add: then_drive_def)
  next
    case None
    show ?thesis
    proof (cases "route_loadChildren route")
      case n: None
      with a c pr None show ?thesis
        by (simp add: then_drive_def drive_Lazy)
    next
      case (Some l)
      from "3.IH"(2) [OF refl reg _ None Some, of st' "Await # K1"] c None
      have "drive (Loaded l ?fp # EndLazy ?fp # Await # K1) (fst st', snd st' @ [?fp]) =
              then_drive (processLazyRoute l ?fp st') K1"
        by (simp add: cres_def then_drive_Await)
      with a c pr None Some show ?thesis
        by (simp add: then_drive_simps drive_Lazy)
    qed
  qed
next
  case (4 l fullPath st)
  let ?st1 = "(fst st, snd st @ [fullPath])"
  show ?case
  proof (cases l)
    case (Rejects msg)
    then show ?thesis by (simp add: drive_Loaded then_drive_def processLazyRoute.simps Let_def)
  next
    case (Resolves ld)
    show ?thesis
    proof (cases "extractRoutesFromLazyModule ld")
      case Nil
      with Resolves show ?thesis
        by (simp add: drive_Loaded drive_EndLazy then_drive_def processLazyRoute.simps Let_def)
    next
      case (Cons c cs)
      then have pos: "0 < length (extractRoutesFromLazyModule ld)" by simp
      obtain res st' where b: "buildRouteMap (c # cs) fullPath ?st1 = (res, st')"
        by (cases "buildRouteMap (c # cs) fullPath ?st1")
      from "4.IH" [OF refl Resolves refl pos, of "Await # EndLazy fullPath # K2"] Cons b
      have "drive (Routes (c # cs) fullPath # Await # EndLazy fullPath # K2) ?st1 =
              then_drive (res, st') (Await # EndLazy fullPath # K2)"
        by (simp del: buildRouteMap.simps)
      with Resolves Cons b show ?thesis
        by (cases res)
           (simp_all add: drive_Loaded then_drive_def Let_def drive_Await drive_EndLazy
              processLazyRoute.simps del: buildRouteMap.simps)
    qed
  qed
qed

text \<open>
  A traversal that returns normally has invoked the loaders of exactly the routes that
  \<open>lazy_paths\<close> lists, each once, in that order.
\<close>

declare lazy_paths_route.simps [simp del]
declare lazy_paths_loader.simps [simp del]

lemma traversal_loader_calls:
  "buildRouteMap rs p st = (None, st') \<Longrightarrow> snd st' = snd st @ lazy_paths rs p"
  "processRoute r p1 st1 = (None, st1') \<Longrightarrow> snd st1' = snd st1 @ lazy_paths_route r p1"
  "processLazyRoute l fp st2 = (None, st2') \<Longrightarrow> snd st2' = snd st2 @ lazy_paths_loader l fp"
proof (induction rs p st and r p1 st1 and l fp st2 arbitrary: st' and st1' and st2'
    rule: buildRouteMap_processRoute_processLazyRoute.induct)
  case (1 parentPath st)
  then show ?case by simp
next
  case (2 route routes parentPath st)
  obtain res y where pr: "processRoute route parentPath st = (res, y)"
    by (cases "processRoute route parentPath st")
  with "2.prems" have n: "res = None" and b: "buildRouteMap routes parentPath y = (None, st')"
    by (cases res; simp)+
  from "2.IH"(1) [of y] pr n have "snd y = snd st @ lazy_paths_route route parentPath" by simp
  moreover from "2.IH"(2) [of res y st'] pr n b
  have "snd st' = snd y @ lazy_paths routes parentPath" by simp
  ultimately show ?case by simp
next
  case (3 route parentPath st)
  let ?fp = "joinPaths parentPath (route_path route)"
  from "3.prems" obtain m where reg: "register_if_named route ?fp (fst st) = Inr m"
    by (cases "register_if_named route ?fp (fst st)") (auto simp: processRoute.simps Let_def)
  define cres where "cres = (case route_children route of
      None \<Rightarrow> (None, (m, snd st)) | Some cs \<Rightarrow> buildRouteMap cs ?fp (m, snd st))"
  obtain cr y where c: "cres = (cr, y)" by (cases cres)
  from "3.prems" reg c have cn: "cr = None"
    and lz: "(case route_loadChildren route of None \<Rightarrow> (None, y)
              | Some l \<Rightarrow> processLazyRoute l ?fp y) = (None, st1')"
    by (cases cr; simp add: processRoute.simps Let_def cres_def)+
  have a: "snd y = snd st @ (case route_children route of None \<Rightarrow> [] | Some cs \<Rightarrow> lazy_paths cs ?fp)"
  proof (cases "route_children route")
    case None
    with c show ?thesis by (auto simp: cres_def)
  next
    case (Some cs)
    with c cn have "buildRouteMap cs ?fp (m, snd st) = (None, y)" by (simp add: cres_def)
    from "3.IH"(1) [OF refl reg Some this] Some show ?thesis by simp
  qed
  have b: "snd st1' = snd y @ (case route_loadChildren route of None \<Rightarrow> []
                                 | Some l \<Rightarrow> lazy_paths_loader l ?fp)"
  proof (cases "route_loadChildren route")
    case None
    with lz show ?thesis by simp
  next
    case (Some l)
    with lz have "processLazyRoute l ?fp y = (None, st1')" by simp
    from "3.IH"(2) [OF refl reg _ cn Some this] c Some show ?thesis by (simp add: cres_def)
  qed
  from a b show ?case by (simp add: lazy_paths_route.simps Let_def)
next
  case (4 l fullPath st)
  show ?case
  proof (cases l)
    case (Rejects msg)
    with "4.prems" show ?thesis by (simp add: processLazyRoute.simps Let_def)
  next
    case (Resolves ld)
    show ?thesis
    proof (cases "extractRoutesFromLazyModule ld")
      case Nil
      with Resolves "4.prems" show ?thesis
        by (simp add: processLazyRoute.simps lazy_paths_loader.simps Let_def) auto
    next
      case (Cons c cs)
      then have pos: "0 < length (extractRoutesFromLazyModule ld)" by simp
      obtain res y where b: "buildRouteMap (c # cs) fullPath (fst st, snd st @ [fullPath]) = (res, y)"
        by (cases "buildRouteMap (c # cs) fullPath (fst st, snd st @ [fullPath])")
      with Resolves Cons "4.prems" have n: "res = None" and y: "y = st2'"
        by (cases res; simp add: processLazyRoute.simps Let_def del: buildRouteMap.simps)+
      from "4.IH" [OF refl Resolves refl pos, of st2'] Cons b n y Resolves show ?thesis
        by (simp add: lazy_paths_loader.simps del: buildRouteMap.simps lazy_paths.simps)
    qed
  qed
qed

section \<open>Properties of the registry\<close>

lemma map_of_map_set: "map_of (map_set k v m) = (map_of m)(k \<mapsto> v)"
  by (induction m) (auto simp: fun_eq_iff)

lemma map_set_nonblank:
  "js_trim k \<noteq> [] \<Longrightarrow> nonblank_keys m \<Longrightarrow> nonblank_keys (map_set k v m)"
  by (induction m) (auto simp: nonblank_keys_def)

lemma registerRoute_nonblank:
  assumes "registerRoute name path m = Inr m'" and "nonblank_keys m"
  shows "nonblank_keys m'"
proof (cases "js_trim name = []")
  case True
  with assms show ?thesis by (simp add: registerRoute_def)
next
  case False
  with assms have "m' = map_set name path m"
    by (auto simp: registerRoute_def split: option.splits)
  with assms False show ?thesis by (simp add: map_set_nonblank)
qed

lemma register_if_named_nonblank:
  "register_if_named r fp m = Inr m' \<Longrightarrow> nonblank_keys m \<Longrightarrow> nonblank_keys m'"
  by (auto simp: register_if_named_def split: option.splits if_splits dest: registerRoute_nonblank)

lemma run_segment_nonblank:
  "nonblank_keys (fst st) \<Longrightarrow> nonblank_keys (fst (snd (run_segment K st)))"
proof (induction K st rule: run_segment.induct)
  case (6 route routes parentPath K st)
  show ?case
  proof (cases "register_if_named route (joinPaths parentPath (route_path route)) (fst st)")
    case (Inl e)
    with "6.prems" show ?thesis by (simp add: Let_def)
  next
    case (Inr m)
    with "6.prems" have "nonblank_keys m" by (auto dest: register_if_named_nonblank)
    with "6.IH" [OF refl refl Inr] Inr show ?thesis
      by (simp add: Let_def del: run_segment.simps(7))
  qed
next
  case (7 route fullPath K st)
  then show ?case by (cases "route_children route") (simp_all del: run_segment.simps(5,6))
next
  case (8 route fullPath K st)
  then show ?case by (cases "route_loadChildren route") simp_all
next
  case (9 l fullPath K st)
  then show ?case
    by (cases l) (simp_all add: Let_def del: run_segment.simps(5,6))
qed simp_all

lemma apply_segment_nonblank:
  "nonblank_keys (fst (snd r)) \<Longrightarrow> nonblank_keys (routeMap (apply_segment pid r s))"
  by (cases "(pid, r, s)" rule: apply_segment.cases) auto

lemma performInitialization_nonblank:
  "nonblank_keys (routeMap s) \<Longrightarrow> nonblank_keys (routeMap (performInitialization cfg pid s))"
  by (cases cfg)
     (auto simp: performInitialization_def catch_block_def
        intro!: apply_segment_nonblank run_segment_nonblank)

lemma initialize_nonblank:
  "nonblank_keys (routeMap s) \<Longrightarrow> nonblank_keys (routeMap (snd (initialize cfg s)))"
  using performInitialization_nonblank [of "s\<lparr>promises := Suc (promises s)\<rparr>" cfg "promises s"]
  by (auto simp: initialize_def Let_def split: option.splits)

lemma reset_nonblank: "nonblank_keys (routeMap (reset s))"
  by (simp add: reset_def nonblank_keys_def)

lemma resume_nonblank:
  "nonblank_keys (routeMap s) \<Longrightarrow> nonblank_keys (routeMap (resume pid s))"
  by (auto simp: resume_def Let_def catch_block_def
        split: option.splits thread_state.splits
        intro!: apply_segment_nonblank run_segment_nonblank)

lemma apply_event_nonblank:
  "nonblank_keys (routeMap s) \<Longrightarrow> nonblank_keys (routeMap (apply_event ev s))"
  by (cases ev) (simp_all add: initialize_nonblank reset_nonblank resume_nonblank refresh_def)

lemma run_events_nonblank:
  "nonblank_keys (routeMap s) \<Longrightarrow> nonblank_keys (routeMap (run_events evs s))"
  by (induction evs arbitrary: s) (simp_all add: apply_event_nonblank)

lemma nonblank_keys_lookup:
  assumes "nonblank_keys m" and "js_trim name = []"
  shows "map_of m name = None"
proof -
  from assms have "name \<notin> fst ` set m"
    by (auto simp: nonblank_keys_def list_all_iff)
  then show ?thesis by (simp add: map_of_eq_None_iff)
qed

text \<open>
  Claim C9. In every state the service reaches from its initial state by calls of
  \<^verbatim>\<open>initialize\<close>, \<^verbatim>\<open>reset\<close> and \<^verbatim>\<open>refresh\<close> (with any configurations) and by the
  resumptions of suspended traversals, in any order, \<^verbatim>\<open>hasRoute(name)\<close> is true exactly
  when \<^verbatim>\<open>getRoutePath(name)\<close> returns a path, for every name. A blank name is never a
  key of the map, so for it both report absence; this includes the empty name, for which
  \<^verbatim>\<open>getRoutePath\<close> returns \<^verbatim>\<open>undefined\<close> without looking.
\<close>

theorem hasRoute_iff_getRoutePath:
  "hasRoute name (run_events evs init_system) =
     (getRoutePath name (run_events evs init_system) \<noteq> None) \<and>
   (js_trim name = [] \<longrightarrow>
      \<not> hasRoute name (run_events evs init_system) \<and>
      getRoutePath name (run_events evs init_system) = None)"
proof -
  have "nonblank_keys (routeMap init_system)" by (simp add: nonblank_keys_def init_system_def)
  then have k: "nonblank_keys (routeMap (run_events evs init_system))"
    by (rule run_events_nonblank)
  have "js_trim [] = []" by (simp add: js_trim_def)
  from nonblank_keys_lookup [OF k this] nonblank_keys_lookup [OF k, of name]
  show ?thesis by (auto simp: hasRoute_def getRoutePath_def)
qed

text \<open>
  The hypothesis of C9 holds for the name of two spaces: a route with this name is
  skipped by \<^verbatim>\<open>registerRoute\<close>, and after the build neither query finds it, while
  both find the route \<^verbatim>\<open>home\<close>.
\<close>

theorem hasRoute_iff_getRoutePath_witness:
  "\<not> hasRoute (js ''  '')
       (run_events
          [CallInitialize (ConfigRoutes
             [Route (Some (js ''blank'')) (Some (js ''  '')) None None,
              Route (Some (js ''home'')) (Some (js ''home'')) None None]),
           Resume 0, Resume 0, Resume 0] init_system) \<and>
   getRoutePath (js ''  '')
       (run_events
          [CallInitialize (ConfigRoutes
             [Route (Some (js ''blank'')) (Some (js ''  '')) None None,
              Route (Some (js ''home'')) (Some (js ''home'')) None None]),
           Resume 0, Resume 0, Resume 0] init_system) = None \<and>
   hasRoute (js ''home'')
       (run_events
          [CallInitialize (ConfigRoutes
             [Route (Some (js ''blank'')) (Some (js ''  '')) None None,
              Route (Some (js ''home'')) (Some (js ''home'')) None None]),
           Resume 0, Resume 0, Resume 0] init_system)"
proof -
  let ?evs = "[CallInitialize (ConfigRoutes
             [Route (Some (js ''blank'')) (Some (js ''  '')) None None,
              Route (Some (js ''home'')) (Some (js ''home'')) None None]),
           Resume 0, Resume 0, Resume 0]"
  have b: "js_trim (js ''  '') = []" by code_simp
  have g: "getRoutePath (js ''home'') (run_events ?evs init_system) \<noteq> None" by code_simp
  from hasRoute_iff_getRoutePath [of "js ''  ''" ?evs] b
  have 1: "\<not> hasRoute (js ''  '') (run_events ?evs init_system) \<and>
           getRoutePath (js ''  '') (run_events ?evs init_system) = None"
    by blast
  from hasRoute_iff_getRoutePath [of "js ''home''" ?evs] g
  have 2: "hasRoute (js ''home'') (run_events ?evs init_system)" by blast
  from 1 2 show ?thesis by blast
qed

section \<open>Coalescing and retry of initialize\<close>

lemma run_segment_not_fulfil:
  "Await \<in> set K \<Longrightarrow> fst (run_segment K st) \<noteq> Fulfil"
proof (induction K st rule: run_segment.induct)
  case (6 route routes parentPath K st)
  show ?case
  proof (cases "register_if_named route (joinPaths parentPath (route_path route)) (fst st)")
    case (Inl e)
    then show ?thesis by (simp add: Let_def)
  next
    case (Inr m)
    with "6.IH" [OF refl refl Inr] show ?thesis
      by (simp add: Let_def del: run_segment.simps(7))
  qed
next
  case (7 route fullPath K st)
  then show ?case by (cases "route_children route") (simp_all del: run_segment.simps(5,6))
next
  case (8 route fullPath K st)
  then show ?case by (cases "route_loadChildren route") simp_all
next
  case (9 l fullPath K st)
  then show ?case
    by (cases l) (simp_all add: Let_def del: run_segment.simps(5,6))
qed simp_all

lemma apply_segment_suspend_fields:
  "fst r \<noteq> Fulfil \<Longrightarrow>
   isInitialized (apply_segment pid r s) = isInitialized s \<and>
   initializationPromise (apply_segment pid r s) = initializationPromise s \<and>
   promises (apply_segment pid r s) = promises s"
  by (cases "(pid, r, s)" rule: apply_segment.cases) auto

lemma performInitialization_fields:
  "isInitialized (performInitialization cfg pid s) = isInitialized s \<and>
   promises (performInitialization cfg pid s) = promises s"
proof (cases cfg)
  case (ConfigRoutes rs)
  have "fst (run_segment [Routes rs [], Await] (routeMap s, loaderCalls s)) \<noteq> Fulfil"
    by (rule run_segment_not_fulfil) simp
  from apply_segment_suspend_fields [OF this] ConfigRoutes show ?thesis
    by (simp add: performInitialization_def)
qed (simp_all add: performInitialization_def catch_block_def)

lemma initialize_pending:
  "\<not> isInitialized s \<Longrightarrow> initializationPromise s = Some p \<Longrightarrow> initialize cfg s = (Awaits p, s)"
  by (simp add: initialize_def)

lemma initialize_done: "isInitialized s \<Longrightarrow> initialize cfg s = (Resolved, s)"
  by (simp add: initialize_def)

lemma initialize_fresh:
  assumes "\<not> isInitialized s" and "initializationPromise s = None"
  shows "\<exists>s'. initialize cfg s = (Awaits (promises s), s') \<and> \<not> isInitialized s' \<and>
              initializationPromise s' = Some (promises s) \<and> promises s' = Suc (promises s)"
  using assms performInitialization_fields [of cfg "promises s" "s\<lparr>promises := Suc (promises s)\<rparr>"]
  by (simp add: initialize_def Let_def)

text \<open>
  Claim C10 at the failing input. With no router configuration, \<^verbatim>\<open>initialize\<close> fails:
  the promise it creates is rejected within the call, by the \<^verbatim>\<open>catch\<close> block, which
  clears the stored reference before \<^verbatim>\<open>initialize\<close> stores the rejected promise in
  it. The next call, made when the router has a configuration, returns that rejected
  promise; no traversal starts, and the route of the new configuration is never
  registered. For comparison, a configuration that is not an array fails after the first
  \<^verbatim>\<open>await\<close>: the reference is cleared, the next call creates a new promise and its
  traversal registers the route.
\<close>

theorem missing_config_not_retried:
  "initializationPromise (snd (initialize ConfigMissing init_system)) = Some 0 \<and>
   settled (snd (initialize ConfigMissing init_system)) =
     [(0, Some (NamedRouteError
         (js ''Router configuration is not available. Ensure the router is properly configured.'')))] \<and>
   threads (snd (initialize ConfigMissing init_system)) = [] \<and>
   initialize (ConfigRoutes [Route (Some (js ''home'')) (Some (js ''home'')) None None])
     (snd (initialize ConfigMissing init_system)) =
     (Awaits 0, snd (initialize ConfigMissing init_system)) \<and>
   getRoutePath (js ''home'')
     (run_events
        [CallInitialize ConfigMissing,
         CallInitialize (ConfigRoutes [Route (Some (js ''home'')) (Some (js ''home'')) None None]),
         Resume 0, Resume 1] init_system) = None \<and>
   initializationPromise
     (run_events [CallInitialize ConfigNotArray, Resume 0] init_system) = None \<and>
   initialize (ConfigRoutes [Route (Some (js ''home'')) (Some (js ''home'')) None None])
     (run_events [CallInitialize ConfigNotArray, Resume 0] init_system) =
     (Awaits 1,
      run_events
        [CallInitialize ConfigNotArray, Resume 0,
         CallInitialize (ConfigRoutes [Route (Some (js ''home'')) (Some (js ''home'')) None None])]
        init_system) \<and>
   getRoutePath (js ''home'')
     (run_events
        [CallInitialize ConfigNotArray, Resume 0,
         CallInitialize (ConfigRoutes [Route (Some (js ''home'')) (Some (js ''home'')) None None]),
         Resume 1, Resume 1] init_system) = Some (js ''home'')"
  by code_simp

text \<open>
  A failure that reaches the \<^verbatim>\<open>catch\<close> block after a suspension clears the stored
  reference and leaves the flag false, so that the next call starts a new traversal.
\<close>

lemma failure_after_suspension_retried:
  assumes "map_of (threads s) pid = Some (Throwing e)" and "\<not> isInitialized s"
  shows "\<exists>s'. initialize cfg (resume pid s) = (Awaits (promises s), s') \<and>
              promises s' = Suc (promises s)"
proof -
  from assms have "\<not> isInitialized (resume pid s)" "initializationPromise (resume pid s) = None"
    "promises (resume pid s) = promises s"
    by (simp_all add: resume_def catch_block_def)
  with initialize_fresh [of "resume pid s" cfg] show ?thesis by auto
qed

section \<open>Failed builds and duplicate names\<close>

lemma registerRoute_duplicate:
  "js_trim name \<noteq> [] \<Longrightarrow> map_of m name = Some existingPath \<Longrightarrow>
   registerRoute name path m = Inl (DuplicateRouteNameError name existingPath path)"
  by (simp add: registerRoute_def)

lemma registerRoute_keeps:
  assumes "registerRoute name path m = Inr m'" and "map_of m n = Some p"
  shows "map_of m' n = Some p"
proof (cases "js_trim name = []")
  case True
  with assms show ?thesis by (simp add: registerRoute_def)
next
  case False
  with assms have "map_of m name = None" and "m' = map_set name path m"
    by (auto simp: registerRoute_def split: option.splits)
  with assms show ?thesis by (auto simp: map_of_map_set)
qed

lemma register_if_named_keeps:
  "register_if_named r fp m = Inr m' \<Longrightarrow> map_of m n = Some p \<Longrightarrow> map_of m' n = Some p"
  by (auto simp: register_if_named_def split: option.splits if_splits dest: registerRoute_keeps)

lemma run_segment_keeps:
  "map_of (fst st) n = Some p \<Longrightarrow> map_of (fst (snd (run_segment K st))) n = Some p"
proof (induction K st rule: run_segment.induct)
  case (6 route routes parentPath K st)
  show ?case
  proof (cases "register_if_named route (joinPaths parentPath (route_path route)) (fst st)")
    case (Inl e)
    with "6.prems" show ?thesis by (simp add: Let_def)
  next
    case (Inr m)
    with "6.prems" have "map_of m n = Some p" by (auto dest: register_if_named_keeps)
    with "6.IH" [OF refl refl Inr] Inr show ?thesis
      by (simp add: Let_def del: run_segment.simps(7))
  qed
next
  case (7 route fullPath K st)
  then show ?case by (cases "route_children route") (simp_all del: run_segment.simps(5,6))
next
  case (8 route fullPath K st)
  then show ?case by (cases "route_loadChildren route") simp_all
next
  case (9 l fullPath K st)
  then show ?case
    by (cases l) (simp_all add: Let_def del: run_segment.simps(5,6))
qed simp_all

lemma apply_segment_routeMap: "routeMap (apply_segment pid r s) = fst (snd r)"
  by (cases "(pid, r, s)" rule: apply_segment.cases) auto

lemma performInitialization_keeps:
  "map_of (routeMap s) n = Some p \<Longrightarrow> map_of (routeMap (performInitialization cfg pid s)) n = Some p"
  using run_segment_keeps [of "(routeMap s, loaderCalls s)" n p]
  by (cases cfg) (simp_all add: performInitialization_def catch_block_def apply_segment_routeMap)

lemma initialize_keeps:
  "map_of (routeMap s) n = Some p \<Longrightarrow> map_of (routeMap (snd (initialize cfg s))) n = Some p"
  using performInitialization_keeps [of "s\<lparr>promises := Suc (promises s)\<rparr>" n p cfg "promises s"]
  by (auto simp: initialize_def Let_def split: option.splits)

lemma resume_keeps:
  "map_of (routeMap s) n = Some p \<Longrightarrow> map_of (routeMap (resume pid s)) n = Some p"
  using run_segment_keeps [of "(routeMap s, loaderCalls s)" n p]
  by (auto simp: resume_def Let_def catch_block_def apply_segment_routeMap
        split: option.splits thread_state.splits)

lemma run_events_keeps:
  "list_all keeps_registry evs \<Longrightarrow> map_of (routeMap s) n = Some p \<Longrightarrow>
   map_of (routeMap (run_events evs s)) n = Some p"
proof (induction evs arbitrary: s)
  case Nil
  then show ?case by simp
next
  case (Cons ev evs)
  then have "map_of (routeMap (apply_event ev s)) n = Some p"
    by (cases ev) (simp_all add: initialize_keeps resume_keeps)
  with Cons show ?case by simp
qed

lemma resume_throwing:
  assumes "map_of (threads s) pid = Some (Throwing e)"
  shows "resume pid s =
           s\<lparr>threads := filter (\<lambda>t. fst t \<noteq> pid) (threads s), initializationPromise := None,
             settled := settled s @ [(pid, Some (catch_performInitialization e))]\<rparr>"
  using assms by (simp add: resume_def catch_block_def)

text \<open>
  Claim C2, as amended. A failing build is not atomic. The step in which the failure
  reaches \<^verbatim>\<open>performInitialization\<close> (its \<^verbatim>\<open>catch\<close> block, run on resumption of the
  traversal that threw, or within the call when the configuration is missing) rejects the
  promise and clears the stored reference; it leaves the map as the traversal left it and
  does not touch the flag. And no call of \<^verbatim>\<open>initialize\<close> and no step of any traversal
  removes or changes an entry: a name that \<^verbatim>\<open>getRoutePath\<close> finds is found with the same
  path, by \<^verbatim>\<open>hasRoute\<close> and in \<^verbatim>\<open>getAllRouteNames\<close> too, after any sequence of such
  events. So what a traversal registered before it failed stays observable until the next
  \<^verbatim>\<open>reset\<close> or \<^verbatim>\<open>refresh\<close>.
\<close>

theorem failure_keeps_partial_mapping:
  "(map_of (threads s) pid = Some (Throwing e) \<longrightarrow>
      routeMap (resume pid s) = routeMap s \<and>
      isInitialized (resume pid s) = isInitialized s \<and>
      initializationPromise (resume pid s) = None \<and>
      (pid, Some (catch_performInitialization e)) \<in> set (settled (resume pid s))) \<and>
   routeMap (performInitialization ConfigMissing pid s) = routeMap s \<and>
   (list_all keeps_registry evs \<longrightarrow> getRoutePath n s = Some p \<longrightarrow>
      getRoutePath n (run_events evs s) = Some p \<and>
      hasRoute n (run_events evs s) \<and>
      n \<in> set (getAllRouteNames (run_events evs s)))"
proof (intro conjI impI)
  assume a: "list_all keeps_registry evs" and g: "getRoutePath n s = Some p"
  from g have n: "n \<noteq> []" and m: "map_of (routeMap s) n = Some p"
    by (auto simp: getRoutePath_def split: if_splits)
  from run_events_keeps [OF a m] have r: "map_of (routeMap (run_events evs s)) n = Some p" .
  with n show "getRoutePath n (run_events evs s) = Some p" by (simp add: getRoutePath_def)
  from r show "hasRoute n (run_events evs s)" by (simp add: hasRoute_def)
  from r have "(n, p) \<in> set (routeMap (run_events evs s))" by (rule map_of_SomeD)
  then show "n \<in> set (getAllRouteNames (run_events evs s))"
    by (force simp: getAllRouteNames_def)
qed (simp_all add: resume_throwing performInitialization_def catch_block_def)

text \<open>
  The hypotheses of C2 hold for the two routes named \<^verbatim>\<open>duplicate\<close>: after the first
  resumption the traversal is throwing; the failure step leaves the entry of the first
  route in the map.
\<close>

theorem failure_keeps_partial_mapping_witness:
  "routeMap (run_events
       [CallInitialize (ConfigRoutes
          [Route (Some (js ''first'')) (Some (js ''duplicate'')) None None,
           Route (Some (js ''second'')) (Some (js ''duplicate'')) None None]),
        Resume 0, Resume 0] init_system) = [(js ''duplicate'', js ''first'')] \<and>
   getRoutePath (js ''duplicate'')
     (run_events
       [CallInitialize (ConfigRoutes
          [Route (Some (js ''first'')) (Some (js ''duplicate'')) None None,
           Route (Some (js ''second'')) (Some (js ''duplicate'')) None None]),
        Resume 0, Resume 0] init_system) = Some (js ''first'')"
proof -
  let ?cfg = "ConfigRoutes
          [Route (Some (js ''first'')) (Some (js ''duplicate'')) None None,
           Route (Some (js ''second'')) (Some (js ''duplicate'')) None None]"
  let ?s = "run_events [CallInitialize ?cfg, Resume 0] init_system"
  let ?e = "DuplicateRouteNameError (js ''duplicate'') (js ''first'') (js ''second'')"
  have t: "map_of (threads ?s) 0 = Some (Throwing ?e)" by code_simp
  have m: "routeMap ?s = [(js ''duplicate'', js ''first'')]" by code_simp
  have k: "list_all keeps_registry [Resume 0]" by simp
  have g: "getRoutePath (js ''duplicate'') ?s = Some (js ''first'')" by code_simp
  have r: "run_events [CallInitialize ?cfg, Resume 0, Resume 0] init_system = resume 0 ?s"
    by simp
  have r': "run_events [CallInitialize ?cfg, Resume 0, Resume 0] init_system = run_events [Resume 0] ?s"
    by simp
  from failure_keeps_partial_mapping
    [where s = ?s and pid = 0 and e = ?e and evs = "[Resume 0]" and n = "js ''duplicate''"
       and p = "js ''first''"] t k g
  have "routeMap (resume 0 ?s) = routeMap ?s \<and>
        getRoutePath (js ''duplicate'') (run_events [Resume 0] ?s) = Some (js ''first'')"
    by blast
  then show ?thesis unfolding r [symmetric] r' [symmetric] m by simp
qed

text \<open>
  Claim C2 as stated fails. The build over two routes named \<^verbatim>\<open>duplicate\<close> is rejected,
  and the entry registered before the failure is observable afterwards. After a
  successful build of a route \<^verbatim>\<open>home\<close>, a \<^verbatim>\<open>refresh\<close> over the same two routes is
  rejected and leaves the registry without \<^verbatim>\<open>home\<close> and with the partial entry.
\<close>

theorem failed_build_not_atomic:
  "settled (run_events
       [CallInitialize (ConfigRoutes
          [Route (Some (js ''first'')) (Some (js ''duplicate'')) None None,
           Route (Some (js ''second'')) (Some (js ''duplicate'')) None None]),
        Resume 0, Resume 0] init_system) =
     [(0, Some (DuplicateRouteNameError (js ''duplicate'') (js ''first'') (js ''second'')))] \<and>
   hasRoute (js ''duplicate'')
     (run_events
       [CallInitialize (ConfigRoutes
          [Route (Some (js ''first'')) (Some (js ''duplicate'')) None None,
           Route (Some (js ''second'')) (Some (js ''duplicate'')) None None]),
        Resume 0, Resume 0] init_system) \<and>
   getAllRouteNames
     (run_events
       [CallInitialize (ConfigRoutes
          [Route (Some (js ''first'')) (Some (js ''duplicate'')) None None,
           Route (Some (js ''second'')) (Some (js ''duplicate'')) None None]),
        Resume 0, Resume 0] init_system) = [js ''duplicate''] \<and>
   isInitialized
     (run_events
       [CallInitialize (ConfigRoutes [Route (Some (js ''home'')) (Some (js ''home'')) None None]),
        Resume 0, Resume 0] init_system) \<and>
   settled (run_events
       [CallInitialize (ConfigRoutes [Route (Some (js ''home'')) (Some (js ''home'')) None None]),
        Resume 0, Resume 0,
        CallRefresh (ConfigRoutes
          [Route (Some (js ''first'')) (Some (js ''duplicate'')) None None,
           Route (Some (js ''second'')) (Some (js ''duplicate'')) None None]),
        Resume 1, Resume 1] init_system) =
     [(0, None),
      (1, Some (DuplicateRouteNameError (js ''duplicate'') (js ''first'') (js ''second'')))] \<and>
   getAllRouteNames
     (run_events
       [CallInitialize (ConfigRoutes [Route (Some (js ''home'')) (Some (js ''home'')) None None]),
        Resume 0, Resume 0,
        CallRefresh (ConfigRoutes
          [Route (Some (js ''first'')) (Some (js ''duplicate'')) None None,
           Route (Some (js ''second'')) (Some (js ''duplicate'')) None None]),
        Resume 1, Resume 1] init_system) = [js ''duplicate'']"
  by code_simp

text \<open>
  Claim C1 at the failing input. A route \<^verbatim>\<open>home\<close> named \<^verbatim>\<open>dup\<close> is followed by a
  route \<^verbatim>\<open>lazy\<close> whose loader resolves to an array with a route \<^verbatim>\<open>x\<close> named
  \<^verbatim>\<open>dup\<close>. \<^verbatim>\<open>registerRoute\<close> throws the \<^verbatim>\<open>DuplicateRouteNameError\<close>, and the
  \<^verbatim>\<open>catch\<close> block of \<^verbatim>\<open>processLazyRoute\<close> replaces it: the build is rejected with a
  \<^verbatim>\<open>NamedRouteError\<close> that is not a \<^verbatim>\<open>DuplicateRouteNameError\<close> and holds the
  duplicate's message as text. The same route as an eager child is rejected with the
  \<^verbatim>\<open>DuplicateRouteNameError\<close> itself, and so are two routes with the same name and the
  same path.
\<close>

theorem lazy_duplicate_wrapped:
  "settled (run_events
       [CallInitialize (ConfigRoutes
          [Route (Some (js ''home'')) (Some (js ''dup'')) None None,
           Route (Some (js ''lazy'')) None None
             (Some (Resolves (LoadedArray [Route (Some (js ''x'')) (Some (js ''dup'')) None None])))]),
        Resume 0, Resume 0, Resume 0, Resume 0, Resume 0] init_system) =
     [(0, Some (NamedRouteError
         (js ''Failed to load lazy module at path '' @ quoted (js ''lazy'') @ js '': '' @
          error_message (DuplicateRouteNameError (js ''dup'') (js ''home'') (js ''lazy/x'')))))] \<and>
   \<not> is_DuplicateRouteNameError
       (NamedRouteError
         (js ''Failed to load lazy module at path '' @ quoted (js ''lazy'') @ js '': '' @
          error_message (DuplicateRouteNameError (js ''dup'') (js ''home'') (js ''lazy/x'')))) \<and>
   settled (run_events
       [CallInitialize (ConfigRoutes
          [Route (Some (js ''home'')) (Some (js ''dup'')) None None,
           Route (Some (js ''lazy'')) None
             (Some [Route (Some (js ''x'')) (Some (js ''dup'')) None None]) None]),
        Resume 0, Resume 0, Resume 0, Resume 0, Resume 0] init_system) =
     [(0, Some (DuplicateRouteNameError (js ''dup'') (js ''home'') (js ''lazy/x'')))] \<and>
   settled (run_events
       [CallInitialize (ConfigRoutes
          [Route (Some (js ''same'')) (Some (js ''dup'')) None None,
           Route (Some (js ''same'')) (Some (js ''dup'')) None None]),
        Resume 0, Resume 0] init_system) =
     [(0, Some (DuplicateRouteNameError (js ''dup'') (js ''same'') (js ''same'')))]"
  by code_simp

section \<open>One build, however often initialize is called\<close>

text \<open>
  A traversal that is resumed until it settles, with nothing in between, ends with the
  error and the state of \<^verbatim>\<open>buildRouteMap(rootRoutes, '')\<close> read as sequential code.
\<close>

theorem drive_buildRouteMap: "drive [Routes rs [], Await] st = buildRouteMap rs [] st"
proof -
  obtain res st' where b: "buildRouteMap rs [] st = (res, st')"
    by (cases "buildRouteMap rs [] st")
  then show ?thesis
    using drive_big_step(1) [of rs "[]" "[Await]" st]
    by (cases res) (simp_all add: then_drive_def drive_Await drive_Nil)
qed

lemma settled_grows_apply_segment:
  "\<exists>xs. settled (apply_segment pid r s) = settled s @ xs"
  by (cases "(pid, r, s)" rule: apply_segment.cases) auto

lemma settled_grows:
  "\<exists>xs. settled (apply_event ev s) = settled s @ xs"
proof (cases ev)
  case (CallInitialize cfg)
  have "\<exists>xs. settled (performInitialization cfg pid s') = settled s' @ xs" for pid s'
    using settled_grows_apply_segment [of pid _ s']
    by (cases cfg) (auto simp: performInitialization_def catch_block_def)
  from this [of "promises s" "s\<lparr>promises := Suc (promises s)\<rparr>"] CallInitialize show ?thesis
    by (auto simp: initialize_def Let_def split: option.splits)
next
  case CallReset
  then show ?thesis by (simp add: reset_def)
next
  case (CallRefresh cfg)
  have "\<exists>xs. settled (performInitialization cfg pid s') = settled s' @ xs" for pid s'
    using settled_grows_apply_segment [of pid _ s']
    by (cases cfg) (auto simp: performInitialization_def catch_block_def)
  from this [of "promises (reset s)" "(reset s)\<lparr>promises := Suc (promises (reset s))\<rparr>"]
    CallRefresh show ?thesis
    by (auto simp: refresh_def initialize_def Let_def reset_def split: option.splits)
next
  case (Resume pid)
  show ?thesis
  proof (cases "map_of (threads s) pid")
    case None
    with Resume show ?thesis by (simp add: resume_def)
  next
    case (Some ts)
    with Resume settled_grows_apply_segment
      [of pid _ "s\<lparr>threads := filter (\<lambda>t. fst t \<noteq> pid) (threads s)\<rparr>"]
    show ?thesis
      by (cases ts) (auto simp: resume_def Let_def catch_block_def)
  qed
qed

lemma rejection_persists: "\<not> no_rejection s \<Longrightarrow> \<not> no_rejection (apply_event ev s)"
  using settled_grows [of ev s] by (auto simp: no_rejection_def)

lemma single_build_initialize:
  assumes "single_build R s"
  shows "single_build R (snd (initialize cfg s))"
proof (cases "no_rejection s")
  case False
  from rejection_persists [OF this, of "CallInitialize cfg"] show ?thesis
    by (simp add: single_build_def)
next
  case True
  with assms have "isInitialized s \<or> initializationPromise s = Some 0"
    by (auto simp: single_build_def)
  then have "snd (initialize cfg s) = s" by (auto simp: initialize_def)
  with assms show ?thesis by simp
qed

lemma single_build_resume:
  assumes "single_build R s"
  shows "single_build R (resume pid s)"
proof (cases "no_rejection s")
  case False
  from rejection_persists [OF this, of "Resume pid"] show ?thesis
    by (simp add: single_build_def)
next
  case True
  note nr = this
  show ?thesis
  proof (cases "map_of (threads s) pid")
    case None
    then have "resume pid s = s" by (simp add: resume_def)
    with assms show ?thesis by simp
  next
    case (Some ts)
    with assms nr have pid: "pid = 0" and th: "threads s = [(0, ts)]"
      by (auto simp: single_build_def split: if_splits)
    from assms nr th have base: "promises s = 1" "initializationPromise s = Some 0"
      "\<not> isInitialized s" "settled s = []"
      by (auto simp: single_build_def)
    show ?thesis
    proof (cases ts)
      case (Throwing e)
      with th pid have "\<not> no_rejection (resume pid s)"
        by (simp add: resume_def catch_block_def no_rejection_def)
      then show ?thesis by (simp add: single_build_def)
    next
      case (Continue K)
      with assms nr th have d: "drive K (routeMap s, loaderCalls s) = R"
        by (auto simp: single_build_def)
      obtain res m calls where r: "run_segment K (routeMap s, loaderCalls s) = (res, (m, calls))"
        by (cases "run_segment K (routeMap s, loaderCalls s)") auto
      show ?thesis
      proof (cases res)
        case Fulfil
        with r d have "R = (None, (m, calls))" by (simp add: drive.simps [of K])
        with Fulfil r th pid Continue base show ?thesis
          by (simp add: resume_def single_build_def no_rejection_def)
      next
        case (Suspend ts')
        show ?thesis
        proof (cases ts')
          case (Throwing e)
          with Suspend r d have "R = (Some e, (m, calls))" by (simp add: drive.simps [of K])
          with Throwing Suspend r th pid Continue base show ?thesis
            by (simp add: resume_def single_build_def no_rejection_def)
        next
          case c: (Continue K')
          with Suspend r d have "drive K' (m, calls) = R" by (simp add: drive.simps [of K])
          with c Suspend r th pid Continue base show ?thesis
            by (simp add: resume_def single_build_def no_rejection_def)
        qed
      qed
    qed
  qed
qed

lemma single_build_events:
  "list_all keeps_registry evs \<Longrightarrow> single_build R s \<Longrightarrow> single_build R (run_events evs s)"
proof (induction evs arbitrary: s)
  case Nil
  then show ?case by simp
next
  case (Cons ev evs)
  then have "single_build R (apply_event ev s)"
    by (cases ev) (simp_all add: single_build_initialize single_build_resume)
  with Cons show ?case by simp
qed

lemma single_build_start:
  "single_build (buildRouteMap rs [] ([], []))
     (snd (initialize (ConfigRoutes rs) init_system))"
proof -
  let ?K = "[Routes rs [], Await]"
  obtain res m calls where r: "run_segment ?K ([], []) = (res, (m, calls))"
    by (cases "run_segment ?K ([], [])") auto
  have nf: "res \<noteq> Fulfil"
    using run_segment_not_fulfil [of ?K "([], [])"] r by simp
  have d: "drive ?K ([], []) = buildRouteMap rs [] ([], [])" by (rule drive_buildRouteMap)
  show ?thesis
  proof (cases res)
    case Fulfil
    with nf show ?thesis by simp
  next
    case (Suspend ts)
    show ?thesis
    proof (cases ts)
      case (Throwing e)
      with Suspend r d have "buildRouteMap rs [] ([], []) = (Some e, (m, calls))"
        by (simp add: drive.simps [of ?K])
      with Throwing Suspend r show ?thesis
        by (simp add: initialize_def init_system_def performInitialization_def Let_def
              single_build_def)
    next
      case (Continue K')
      with Suspend r d have "drive K' (m, calls) = buildRouteMap rs [] ([], [])"
        by (simp add: drive.simps [of ?K])
      with Continue Suspend r show ?thesis
        by (simp add: initialize_def init_system_def performInitialization_def Let_def
              single_build_def)
    qed
  qed
qed

lemma one_traversal:
  assumes "list_all keeps_registry evs"
    and "isInitialized (run_events (CallInitialize (ConfigRoutes rs) # evs) init_system)"
    and "no_rejection (run_events (CallInitialize (ConfigRoutes rs) # evs) init_system)"
  shows "buildRouteMap rs [] ([], []) =
           (None, (routeMap (run_events (CallInitialize (ConfigRoutes rs) # evs) init_system),
                   loaderCalls (run_events (CallInitialize (ConfigRoutes rs) # evs) init_system))) \<and>
         promises (run_events (CallInitialize (ConfigRoutes rs) # evs) init_system) = 1"
proof -
  let ?s = "run_events (CallInitialize (ConfigRoutes rs) # evs) init_system"
  have "single_build (buildRouteMap rs [] ([], [])) ?s"
    using single_build_events [OF assms(1) single_build_start [of rs]] by simp
  with assms(2,3) show ?thesis by (auto simp: single_build_def)
qed

text \<open>
  Claim C8. A call of \<^verbatim>\<open>initialize\<close> while a build is pending (the promise \<open>p\<close> is
  stored and the flag is not set) returns the stored promise and changes nothing: no
  traversal is started and no loader is invoked. A call after a successful build (the flag
  is set) returns at once and changes nothing. In every state of the service, a second
  call that immediately follows a call returns what the first returned and leaves the
  state as the first left it, whatever configuration the router holds by then. And when
  \<^verbatim>\<open>initialize\<close> is called on the new service and then, in any order and any number of
  times, \<^verbatim>\<open>initialize\<close> is called again and suspended traversals are resumed, without
  \<^verbatim>\<open>reset\<close> or \<^verbatim>\<open>refresh\<close>, then once the flag is set and no build was rejected, one
  promise was created, the loaders invoked are those of one traversal of the first
  configuration, each once, and the map is the one that \<^verbatim>\<open>buildRouteMap(rootRoutes, '')\<close>
  builds.
\<close>

theorem initialize_coalesces:
  "(\<not> isInitialized s \<and> initializationPromise s = Some p \<longrightarrow>
      initialize cfg s = (Awaits p, s)) \<and>
   (isInitialized s \<longrightarrow> initialize cfg s = (Resolved, s)) \<and>
   initialize cfg' (snd (initialize cfg s)) = initialize cfg s \<and>
   (list_all keeps_registry evs \<longrightarrow>
    isInitialized (run_events (CallInitialize (ConfigRoutes rs) # evs) init_system) \<longrightarrow>
    no_rejection (run_events (CallInitialize (ConfigRoutes rs) # evs) init_system) \<longrightarrow>
      promises (run_events (CallInitialize (ConfigRoutes rs) # evs) init_system) = 1 \<and>
      loaderCalls (run_events (CallInitialize (ConfigRoutes rs) # evs) init_system) =
        lazy_paths rs [] \<and>
      buildRouteMap rs [] ([], []) =
        (None, (routeMap (run_events (CallInitialize (ConfigRoutes rs) # evs) init_system),
                loaderCalls (run_events (CallInitialize (ConfigRoutes rs) # evs) init_system))))"
proof (intro conjI impI)
  show "initialize cfg' (snd (initialize cfg s)) = initialize cfg s"
  proof (cases "isInitialized s")
    case True
    then show ?thesis by (simp add: initialize_done)
  next
    case False
    show ?thesis
    proof (cases "initializationPromise s")
      case (Some p)
      with False show ?thesis by (simp add: initialize_pending)
    next
      case None
      from initialize_fresh [OF False None, of cfg] obtain s' where
        "initialize cfg s = (Awaits (promises s), s')" "\<not> isInitialized s'"
        "initializationPromise s' = Some (promises s)" by blast
      then show ?thesis by (simp add: initialize_pending)
    qed
  qed
next
  let ?s = "run_events (CallInitialize (ConfigRoutes rs) # evs) init_system"
  assume a: "list_all keeps_registry evs" "isInitialized ?s" "no_rejection ?s"
  from one_traversal [OF a]
  have b: "buildRouteMap rs [] ([], []) = (None, (routeMap ?s, loaderCalls ?s))"
    and c: "promises ?s = 1" by simp_all
  from c show "promises ?s = 1" .
  from b show "buildRouteMap rs [] ([], []) = (None, (routeMap ?s, loaderCalls ?s))" .
  from traversal_loader_calls(1) [OF b] show "loaderCalls ?s = lazy_paths rs []" by simp
qed (simp_all add: initialize_pending initialize_done)

text \<open>
  The hypotheses of C8 hold for a route \<^verbatim>\<open>lazy\<close> whose loader resolves to an array with
  a route \<^verbatim>\<open>inner\<close> that has a loader of its own: after a first call the state is
  pending with promise 0; after the build has completed the flag is set; and over three
  calls of \<^verbatim>\<open>initialize\<close> each of the two loaders is invoked once.
\<close>

theorem initialize_coalesces_witness:
  "initialize ConfigMissing
     (snd (initialize
        (ConfigRoutes [Route (Some (js ''lazy'')) None None
           (Some (Resolves (LoadedArray
              [Route (Some (js ''inner'')) None None (Some (Resolves LoadedOther))])))])
        init_system)) =
     (Awaits 0,
      snd (initialize
        (ConfigRoutes [Route (Some (js ''lazy'')) None None
           (Some (Resolves (LoadedArray
              [Route (Some (js ''inner'')) None None (Some (Resolves LoadedOther))])))])
        init_system)) \<and>
   initialize ConfigMissing
     (run_events
        [CallInitialize (ConfigRoutes [Route (Some (js ''lazy'')) None None
           (Some (Resolves (LoadedArray
              [Route (Some (js ''inner'')) None None (Some (Resolves LoadedOther))])))]),
         CallInitialize ConfigMissing,
         Resume 0, Resume 0, Resume 0, Resume 0, Resume 0, Resume 0, Resume 0, Resume 0,
         Resume 0, Resume 0, CallInitialize ConfigMissing] init_system) =
     (Resolved,
      run_events
        [CallInitialize (ConfigRoutes [Route (Some (js ''lazy'')) None None
           (Some (Resolves (LoadedArray
              [Route (Some (js ''inner'')) None None (Some (Resolves LoadedOther))])))]),
         CallInitialize ConfigMissing,
         Resume 0, Resume 0, Resume 0, Resume 0, Resume 0, Resume 0, Resume 0, Resume 0,
         Resume 0, Resume 0, CallInitialize ConfigMissing] init_system) \<and>
   loaderCalls
     (run_events
        [CallInitialize (ConfigRoutes [Route (Some (js ''lazy'')) None None
           (Some (Resolves (LoadedArray
              [Route (Some (js ''inner'')) None None (Some (Resolves LoadedOther))])))]),
         CallInitialize ConfigMissing,
         Resume 0, Resume 0, Resume 0, Resume 0, Resume 0, Resume 0, Resume 0, Resume 0,
         Resume 0, Resume 0, CallInitialize ConfigMissing] init_system) =
     [js ''lazy'', js ''lazy/inner'']"
proof -
  let ?rs = "[Route (Some (js ''lazy'')) None None
           (Some (Resolves (LoadedArray
              [Route (Some (js ''inner'')) None None (Some (Resolves LoadedOther))])))]"
  let ?evs = "[CallInitialize ConfigMissing,
         Resume 0, Resume 0, Resume 0, Resume 0, Resume 0, Resume 0, Resume 0, Resume 0,
         Resume 0, Resume 0, CallInitialize ConfigMissing]"
  let ?s1 = "snd (initialize (ConfigRoutes ?rs) init_system)"
  let ?s2 = "run_events (CallInitialize (ConfigRoutes ?rs) # ?evs) init_system"
  have a: "\<not> isInitialized ?s1 \<and> initializationPromise ?s1 = Some 0" by code_simp
  have b: "isInitialized ?s2" by code_simp
  have n: "no_rejection ?s2" by code_simp
  have k: "list_all keeps_registry ?evs" by simp
  have l: "lazy_paths ?rs [] = [js ''lazy'', js ''lazy/inner'']" by code_simp
  from initialize_coalesces [where s = ?s1 and p = 0 and cfg = ConfigMissing] a
  have 1: "initialize ConfigMissing ?s1 = (Awaits 0, ?s1)" by blast
  from initialize_coalesces [where s = ?s2 and cfg = ConfigMissing] b
  have 2: "initialize ConfigMissing ?s2 = (Resolved, ?s2)" by blast
  from initialize_coalesces [where evs = ?evs and rs = ?rs] k b n
  have "loaderCalls ?s2 = lazy_paths ?rs []" by blast
  then have 3: "loaderCalls ?s2 = [js ''lazy'', js ''lazy/inner'']" by (simp only: l)
  from 1 2 3 show ?thesis by blast
qed

section \<open>Duplicates outside lazy subtrees, and retries over what a failed build left\<close>

lemma eager_unfold:
  "eager r = (route_loadChildren r = None \<and>
     (case route_children r of None \<Rightarrow> True | Some rs \<Rightarrow> list_all eager rs))"
  by (cases r) simp

lemma register_if_named_error:
  "register_if_named r fp m = Inl e \<Longrightarrow>
   \<exists>n existing. e = DuplicateRouteNameError n existing fp \<and> route_name r = Some n \<and>
     js_trim n \<noteq> [] \<and> map_of m n = Some existing"
  by (auto simp: register_if_named_def registerRoute_def split: option.splits if_splits)

text \<open>
  Among routes without lazy loaders the only failure is the duplicate name, and it
  leaves the functions as the \<^verbatim>\<open>DuplicateRouteNameError\<close> that \<^verbatim>\<open>registerRoute\<close>
  threw, with the path that the map holds, and still holds, for the name.
\<close>

lemma eager_failure:
  "list_all eager rs \<Longrightarrow> buildRouteMap rs p st = (Some e, st') \<Longrightarrow>
     \<exists>n existing new. e = DuplicateRouteNameError n existing new \<and> map_of (fst st') n = Some existing"
  "eager r \<Longrightarrow> processRoute r p1 st1 = (Some e1, st1') \<Longrightarrow>
     \<exists>n existing new. e1 = DuplicateRouteNameError n existing new \<and> map_of (fst st1') n = Some existing"
  "processLazyRoute l fp st2 = processLazyRoute l fp st2"
proof (induction rs p st and r p1 st1 and l fp st2 arbitrary: e st' and e1 st1' and st2
    rule: buildRouteMap_processRoute_processLazyRoute.induct)
  case (1 parentPath st)
  then show ?case by simp
next
  case (2 route routes parentPath st)
  obtain res y where pr: "processRoute route parentPath st = (res, y)"
    by (cases "processRoute route parentPath st")
  show ?case
  proof (cases res)
    case None
    with pr "2.prems" have b: "buildRouteMap routes parentPath y = (Some e, st')" by simp
    from "2.prems" have "list_all eager routes" by simp
    from "2.IH"(2) [OF pr [symmetric] None this b] show ?thesis .
  next
    case (Some e0)
    with pr "2.prems" have e: "e = catch_buildRouteMap route e0" and s: "st' = y" by simp_all
    from "2.prems" have "eager route" by simp
    from "2.IH"(1) [OF this] pr Some
    obtain n existing new where "e0 = DuplicateRouteNameError n existing new"
      and "map_of (fst y) n = Some existing" by blast
    with e s show ?thesis by (simp add: catch_buildRouteMap_def)
  qed
next
  case (3 route parentPath st)
  let ?fp = "joinPaths parentPath (route_path route)"
  from "3.prems"(1) have nl: "route_loadChildren route = None"
    by (simp add: eager_unfold)
  show ?case
  proof (cases "register_if_named route ?fp (fst st)")
    case (Inl e0)
    with "3.prems" have "e1 = e0" "st1' = st" by (simp_all add: processRoute.simps Let_def)
    with register_if_named_error [OF Inl] show ?thesis by auto
  next
    case (Inr m)
    show ?thesis
    proof (cases "route_children route")
      case None
      with Inr nl "3.prems" show ?thesis by (simp add: processRoute.simps Let_def)
    next
      case (Some cs)
      with "3.prems"(1) have ea: "list_all eager cs" by (simp add: eager_unfold)
      obtain res y where b: "buildRouteMap cs ?fp (m, snd st) = (res, y)"
        by (cases "buildRouteMap cs ?fp (m, snd st)")
      with Inr Some nl "3.prems"(2) have "res = Some e1" "y = st1'"
        by (cases res; simp add: processRoute.simps Let_def)+
      with b have "buildRouteMap cs ?fp (m, snd st) = (Some e1, st1')" by simp
      from "3.IH"(1) [OF refl Inr Some ea this] show ?thesis .
    qed
  qed
next
  case (4 l fullPath st)
  show ?case by simp
qed

text \<open>
  So a traversal of root routes without lazy loaders that is resumed until it settles
  either fulfils or rejects with a \<^verbatim>\<open>DuplicateRouteNameError\<close>, which the \<^verbatim>\<open>catch\<close>
  block of \<^verbatim>\<open>performInitialization\<close> passes on unchanged.
\<close>

lemma eager_build_rejection:
  assumes "list_all eager rs" and "drive [Routes rs [], Await] st = (Some e, st')"
  shows "is_DuplicateRouteNameError e \<and> catch_performInitialization e = e"
proof -
  from assms(2) have "buildRouteMap rs [] st = (Some e, st')"
    by (simp add: drive_buildRouteMap)
  from eager_failure(1) [OF assms(1) this] show ?thesis
    by (auto simp: catch_performInitialization_def)
qed

text \<open>
  A retry runs over the map that the failed build left. A route \<^verbatim>\<open>home\<close> named
  \<^verbatim>\<open>home\<close> is followed by a route \<^verbatim>\<open>lazy\<close> whose loader rejects: the build is
  rejected and \<^verbatim>\<open>home\<close> stays registered. The next call of \<^verbatim>\<open>initialize\<close>, when the
  loader would resolve, starts a new traversal, which is rejected at \<^verbatim>\<open>home\<close> as a
  duplicate of itself before it reaches the loader.
\<close>

lemma retry_meets_partial_mapping:
  "settled (run_events
       [CallInitialize (ConfigRoutes
          [Route (Some (js ''home'')) (Some (js ''home'')) None None,
           Route (Some (js ''lazy'')) None None (Some (Rejects (js ''offline'')))]),
        Resume 0, Resume 0, Resume 0,
        CallInitialize (ConfigRoutes
          [Route (Some (js ''home'')) (Some (js ''home'')) None None,
           Route (Some (js ''lazy'')) None None (Some (Resolves (LoadedArray [])))]),
        Resume 1, Resume 1] init_system) =
     [(0, Some (NamedRouteError
         (js ''Failed to load lazy module at path '' @ quoted (js ''lazy'') @ js '': offline''))),
      (1, Some (DuplicateRouteNameError (js ''home'') (js ''home'') (js ''home'')))] \<and>
   loaderCalls (run_events
       [CallInitialize (ConfigRoutes
          [Route (Some (js ''home'')) (Some (js ''home'')) None None,
           Route (Some (js ''lazy'')) None None (Some (Rejects (js ''offline'')))]),
        Resume 0, Resume 0, Resume 0,
        CallInitialize (ConfigRoutes
          [Route (Some (js ''home'')) (Some (js ''home'')) None None,
           Route (Some (js ''lazy'')) None None (Some (Resolves (LoadedArray [])))]),
        Resume 1, Resume 1] init_system) = [js ''lazy'']"
  by code_simp

end
